theory Spec2Isabelle
  imports Main "HOL-Library.Multiset"
begin

section \<open>Array operations of the host language used by both engines\<close>

text \<open>
  \<^verbatim>\<open>xs.findIndex(p)\<close>: the index of the first element satisfying \<open>p\<close>; the source's
  result \<open>-1\<close> is \<open>None\<close> here.
\<close>

fun findIndex :: "('a \<Rightarrow> bool) \<Rightarrow> 'a list \<Rightarrow> nat option" where
  "findIndex p [] = None"
| "findIndex p (x # xs) = (if p x then Some 0 else map_option Suc (findIndex p xs))"

text \<open>
  \<^verbatim>\<open>xs.splice(i, 1)\<close> and \<^verbatim>\<open>xs.splice(i, 0, x)\<close> on a copy of the array. A start
  index beyond the length is clamped to the length by \<^verbatim>\<open>splice\<close>, which is what
  \<open>take\<close> and \<open>drop\<close> do as well.
\<close>

definition splice_remove :: "nat \<Rightarrow> 'a list \<Rightarrow> 'a list" where
  "splice_remove i xs = take i xs @ drop (Suc i) xs"

definition splice_insert :: "nat \<Rightarrow> 'a \<Rightarrow> 'a list \<Rightarrow> 'a list" where
  "splice_insert i x xs = take i xs @ x # drop i xs"

text \<open>\<^verbatim>\<open>xs.filter((_, j) => j !== i)\<close>: filtering on the position only.\<close>

definition filter_index_neq :: "nat \<Rightarrow> 'a list \<Rightarrow> 'a list" where
  "filter_index_neq i xs = map snd (filter (\<lambda>(j, _). j \<noteq> i) (enumerate 0 xs))"


section \<open>Kanban board\<close>

subsection \<open>Data model (\<^verbatim>\<open>kanban-board/src/types.ts\<close>)\<close>

record Card =
  card_id :: string
  card_title :: string

record Column =
  column_id :: string
  column_title :: string
  cards :: "Card list"

subsection \<open>Handlers (\<^verbatim>\<open>kanban-board/src/KanbanBoard.tsx\<close>)\<close>

text \<open>
  Each handler is modelled as a function from the current \<^verbatim>\<open>columns\<close> state to the
  next one: the argument of \<^verbatim>\<open>setColumns\<close>'s callback (\<^verbatim>\<open>prev\<close>) is the state the
  handler was rendered with, and a handler that returns before calling
  \<^verbatim>\<open>setColumns\<close> leaves the state as it is. The id minted by \<^verbatim>\<open>generateId()\<close>
  (time stamp plus random suffix) is a parameter \<open>newId\<close>.
\<close>

definition handleAddCard :: "Column list \<Rightarrow> string \<Rightarrow> string \<Rightarrow> string \<Rightarrow> Column list" where
  "handleAddCard prev columnId title newId =
     (let newCard = \<lparr>card_id = newId, card_title = title\<rparr>
      in map (\<lambda>col. if column_id col = columnId
                      then col\<lparr>cards := cards col @ [newCard]\<rparr>
                      else col) prev)"

definition handleEditCard :: "Column list \<Rightarrow> string \<Rightarrow> string \<Rightarrow> Column list" where
  "handleEditCard prev cardId newTitle =
     map (\<lambda>col. col\<lparr>cards :=
            map (\<lambda>card. if card_id card = cardId then card\<lparr>card_title := newTitle\<rparr> else card)
                (cards col)\<rparr>) prev"

definition handleDeleteCard :: "Column list \<Rightarrow> string \<Rightarrow> Column list" where
  "handleDeleteCard prev cardId =
     map (\<lambda>col. col\<lparr>cards := filter (\<lambda>card. card_id card \<noteq> cardId) (cards col)\<rparr>) prev"

text \<open>
  The first loop of \<^verbatim>\<open>handleDragEnd\<close>: the first column holding a card with the
  dragged id, the card's index there, and the card.
\<close>

fun find_source :: "Column list \<Rightarrow> string \<Rightarrow> (Column \<times> nat \<times> Card) option" where
  "find_source [] activeId = None"
| "find_source (col # rest) activeId =
     (case findIndex (\<lambda>c. card_id c = activeId) (cards col) of
        Some i \<Rightarrow> Some (col, i, cards col ! i)
      | None \<Rightarrow> find_source rest activeId)"

text \<open>
  The second loop (drop on a card): the id of the first column holding a card with
  the \<^verbatim>\<open>over\<close> id, and that card's index.
\<close>

fun find_target :: "Column list \<Rightarrow> string \<Rightarrow> (string \<times> nat) option" where
  "find_target [] overId = None"
| "find_target (col # rest) overId =
     (case findIndex (\<lambda>c. card_id c = overId) (cards col) of
        Some i \<Rightarrow> Some (column_id col, i)
      | None \<Rightarrow> find_target rest overId)"

text \<open>
  \<^verbatim>\<open>handleDragEnd\<close>; \<open>over\<close> is \<open>None\<close> when the drag ended over nothing. The
  test \<^verbatim>\<open>!targetColumnId\<close> also holds for a column whose id is the empty string.
\<close>

definition kanban_handleDragEnd :: "Column list \<Rightarrow> string \<Rightarrow> string option \<Rightarrow> Column list" where
  "kanban_handleDragEnd columns activeId over =
     (case over of
        None \<Rightarrow> columns
      | Some overId \<Rightarrow>
          if activeId = overId then columns
          else (case find_source columns activeId of
             None \<Rightarrow> columns
           | Some (sourceColumn, sourceIndex, card') \<Rightarrow>
              (case find (\<lambda>col. column_id col = overId) columns of
                 Some targetColumn \<Rightarrow>
                   if column_id targetColumn = column_id sourceColumn then columns
                   else map (\<lambda>col.
                          if column_id col = column_id sourceColumn
                          then col\<lparr>cards := filter (\<lambda>c. card_id c \<noteq> activeId) (cards col)\<rparr>
                          else if column_id col = column_id targetColumn
                          then col\<lparr>cards := cards col @ [card']\<rparr>
                          else col) columns
               | None \<Rightarrow>
                  (case find_target columns overId of
                     None \<Rightarrow> columns
                   | Some (targetColumnId, targetCardIndex) \<Rightarrow>
                       if targetColumnId = [] then columns
                       else if column_id sourceColumn = targetColumnId then
                         (if targetCardIndex = sourceIndex then columns
                          else
                            let newCards = splice_remove sourceIndex (cards sourceColumn);
                                adjustedIndex = (if targetCardIndex > sourceIndex
                                                 then targetCardIndex else targetCardIndex);
                                newCards = splice_insert adjustedIndex card' newCards
                            in map (\<lambda>col. if column_id col = column_id sourceColumn
                                            then col\<lparr>cards := newCards\<rparr> else col) columns)
                       else map (\<lambda>col.
                              if column_id col = column_id sourceColumn
                              then col\<lparr>cards := filter (\<lambda>c. card_id c \<noteq> activeId) (cards col)\<rparr>
                              else if column_id col = targetColumnId
                              then col\<lparr>cards := splice_insert targetCardIndex card' (cards col)\<rparr>
                              else col) columns))))"


section \<open>Tree view\<close>

subsection \<open>Data model (\<^verbatim>\<open>tree-view/src/types.ts\<close>)\<close>

text \<open>
  The optional fields are options: \<open>None\<close> is \<^verbatim>\<open>undefined\<close> (field absent).
\<close>

datatype TreeNode =
  TreeNode (node_id: string) (name: string) (children: "TreeNode list option")
    (isExpanded: "bool option") (isLoading: "bool option") (hasLoaded: "bool option")

text \<open>The object spreads \<^verbatim>\<open>{...node, field: v}\<close> of the source.\<close>

definition with_name :: "string \<Rightarrow> TreeNode \<Rightarrow> TreeNode" where
  "with_name v n = TreeNode (node_id n) v (children n) (isExpanded n) (isLoading n) (hasLoaded n)"

definition with_children :: "TreeNode list option \<Rightarrow> TreeNode \<Rightarrow> TreeNode" where
  "with_children v n = TreeNode (node_id n) (name n) v (isExpanded n) (isLoading n) (hasLoaded n)"

definition with_isExpanded :: "bool option \<Rightarrow> TreeNode \<Rightarrow> TreeNode" where
  "with_isExpanded v n = TreeNode (node_id n) (name n) (children n) v (isLoading n) (hasLoaded n)"

definition with_isLoading :: "bool option \<Rightarrow> TreeNode \<Rightarrow> TreeNode" where
  "with_isLoading v n = TreeNode (node_id n) (name n) (children n) (isExpanded n) v (hasLoaded n)"

definition with_hasLoaded :: "bool option \<Rightarrow> TreeNode \<Rightarrow> TreeNode" where
  "with_hasLoaded v n = TreeNode (node_id n) (name n) (children n) (isExpanded n) (isLoading n) v"

text \<open>Truthiness of an optional boolean, and \<^verbatim>\<open>xs || []\<close> on an optional array.\<close>

definition truthy :: "bool option \<Rightarrow> bool" where
  "truthy b = (case b of Some v \<Rightarrow> v | None \<Rightarrow> False)"

definition or_empty :: "'a list option \<Rightarrow> 'a list" where
  "or_empty xs = (case xs of Some ys \<Rightarrow> ys | None \<Rightarrow> [])"

definition isArray :: "'a list option \<Rightarrow> bool" where
  "isArray xs = (case xs of Some ys \<Rightarrow> True | None \<Rightarrow> False)"

lemma children_size [termination_simp]:
  "children n = Some cs \<Longrightarrow> size_list size cs < size n"
  by (cases n) auto

lemma child_size [termination_simp]:
  "children n = Some cs \<Longrightarrow> c \<in> set cs \<Longrightarrow> size c < size n"
  using children_size [of n cs] size_list_estimation' [of c cs "size c" size] by simp

subsection \<open>Tree functions (\<^verbatim>\<open>tree-view/src/TreeView.tsx\<close>)\<close>

text \<open>
  The result of \<^verbatim>\<open>findNode\<close>. Its \<^verbatim>\<open>parent\<close> is a reference to the array the node
  was found in; the handlers compare that reference with the top-level array
  (\<^verbatim>\<open>activeParent === prev\<close>). Lists have no identity, so the result also records
  whether the array is the one the search started from (\<open>found_root\<close>); the
  \<^verbatim>\<open>children\<close> array of a node is never that array.
\<close>

record found =
  found_node :: TreeNode
  found_parent :: "TreeNode list"
  found_index :: nat
  found_root :: bool

text \<open>
  The loop of \<^verbatim>\<open>findNode\<close> over \<open>nodes\<close>, at index \<open>i\<close> with the elements from \<open>i\<close>
  on in \<open>rest\<close>; the recursive call of the source on \<^verbatim>\<open>nodes[i].children\<close> starts a
  new loop on an array that is not the top-level one.
\<close>

fun findNode_loop ::
  "TreeNode list \<Rightarrow> bool \<Rightarrow> nat \<Rightarrow> TreeNode list \<Rightarrow> string \<Rightarrow> found option" where
  "findNode_loop nodes root i [] ident = None"
| "findNode_loop nodes root i (n # rest) ident =
     (if node_id n = ident
      then Some \<lparr>found_node = n, found_parent = nodes, found_index = i, found_root = root\<rparr>
      else (case children n of
              Some cs \<Rightarrow>
                (case findNode_loop cs False 0 cs ident of
                   Some f \<Rightarrow> Some f
                 | None \<Rightarrow> findNode_loop nodes root (Suc i) rest ident)
            | None \<Rightarrow> findNode_loop nodes root (Suc i) rest ident))"

definition findNode :: "TreeNode list \<Rightarrow> string \<Rightarrow> found option" where
  "findNode nodes ident = findNode_loop nodes True 0 nodes ident"

fun updateNode :: "TreeNode list \<Rightarrow> string \<Rightarrow> (TreeNode \<Rightarrow> TreeNode) \<Rightarrow> TreeNode list" where
  "updateNode nodes ident updater =
     map (\<lambda>node.
            if node_id node = ident then updater node
            else (case children node of
                    Some cs \<Rightarrow> with_children (Some (updateNode cs ident updater)) node
                  | None \<Rightarrow> node)) nodes"

fun deleteNode :: "TreeNode list \<Rightarrow> string \<Rightarrow> TreeNode list" where
  "deleteNode nodes ident =
     map (\<lambda>node.
            case children node of
              Some cs \<Rightarrow> with_children (Some (deleteNode cs ident)) node
            | None \<Rightarrow> node)
         (filter (\<lambda>node. node_id node \<noteq> ident) nodes)"

fun addChildNode :: "TreeNode list \<Rightarrow> string \<Rightarrow> TreeNode \<Rightarrow> TreeNode list" where
  "addChildNode nodes parentId newNode =
     map (\<lambda>node.
            if node_id node = parentId
            then with_isExpanded (Some True)
                   (with_children (Some (or_empty (children node) @ [newNode])) node)
            else (case children node of
                    Some cs \<Rightarrow> with_children (Some (addChildNode cs parentId newNode)) node
                  | None \<Rightarrow> node)) nodes"

text \<open>
  \<^verbatim>\<open>simulateLazyLoad\<close> after its delay; the two generated ids are parameters.
\<close>

definition simulateLazyLoad :: "string \<Rightarrow> string \<Rightarrow> TreeNode list" where
  "simulateLazyLoad id1 id2 =
     [TreeNode id1 ''Child 1'' None None None (Some False),
      TreeNode id2 ''Child 2'' None None None (Some False)]"

subsection \<open>Handlers of \<^verbatim>\<open>TreeView\<close>\<close>

text \<open>
  As for the board, a handler maps the current \<^verbatim>\<open>data\<close> state to the next one.
\<close>

definition handleToggle :: "TreeNode list \<Rightarrow> string \<Rightarrow> TreeNode list" where
  "handleToggle prev ident =
     updateNode prev ident (\<lambda>node. with_isExpanded (Some (\<not> truthy (isExpanded node))) node)"

definition handleAddChild :: "TreeNode list \<Rightarrow> string \<Rightarrow> string \<Rightarrow> string \<Rightarrow> TreeNode list" where
  "handleAddChild prev parentId nm newId =
     (let newNode = TreeNode newId nm None None None (Some False)
      in addChildNode prev parentId newNode)"

definition handleEdit :: "TreeNode list \<Rightarrow> string \<Rightarrow> string \<Rightarrow> TreeNode list" where
  "handleEdit prev ident newName = updateNode prev ident (\<lambda>node. with_name newName node)"

definition handleDelete :: "TreeNode list \<Rightarrow> string \<Rightarrow> TreeNode list" where
  "handleDelete prev ident = deleteNode prev ident"

text \<open>
  \<^verbatim>\<open>handleLoadChildren\<close> is asynchronous: it issues one state update before the
  fetch and one after it, in the \<^verbatim>\<open>try\<close> block when the fetch resolved and in the
  \<^verbatim>\<open>catch\<close> block when it was rejected. Each update is a function of the state
  current at that moment. The handler itself returns nothing and rethrows nothing.
\<close>

definition loadChildren_begin :: "TreeNode list \<Rightarrow> string \<Rightarrow> TreeNode list" where
  "loadChildren_begin prev ident =
     updateNode prev ident (\<lambda>node. with_isLoading (Some True) node)"

definition loadChildren_resolved :: "TreeNode list \<Rightarrow> string \<Rightarrow> TreeNode list \<Rightarrow> TreeNode list" where
  "loadChildren_resolved prev ident fetched =
     updateNode prev ident
       (\<lambda>node. with_isExpanded (Some True) (with_hasLoaded (Some True)
                 (with_isLoading (Some False) (with_children (Some fetched) node))))"

definition loadChildren_rejected :: "TreeNode list \<Rightarrow> string \<Rightarrow> TreeNode list" where
  "loadChildren_rejected prev ident =
     updateNode prev ident (\<lambda>node. with_isLoading (Some False) node)"

datatype fetch_outcome = Resolved "TreeNode list" | Rejected

text \<open>The whole handler when no other update comes in between the two.\<close>

definition handleLoadChildren :: "TreeNode list \<Rightarrow> string \<Rightarrow> fetch_outcome \<Rightarrow> TreeNode list" where
  "handleLoadChildren data ident outcome =
     (let loading = loadChildren_begin data ident
      in case outcome of
           Resolved fetched \<Rightarrow> loadChildren_resolved loading ident fetched
         | Rejected \<Rightarrow> loadChildren_rejected loading ident)"

text \<open>The local function \<^verbatim>\<open>isDescendant\<close> of \<^verbatim>\<open>handleDragEnd\<close>.\<close>

fun isDescendant :: "string \<Rightarrow> TreeNode \<Rightarrow> bool" where
  "isDescendant nodeId ancestor =
     (if node_id ancestor = nodeId then True
      else (case children ancestor of
              Some cs \<Rightarrow> list_ex (\<lambda>child. isDescendant nodeId child) cs
            | None \<Rightarrow> False))"

text \<open>
  \<^verbatim>\<open>handleDragEnd\<close> of the tree. \<^verbatim>\<open>activeParent === prev\<close> is \<open>found_root\<close> of the
  search result. \<^verbatim>\<open>updated\<close> is always an array built by \<^verbatim>\<open>filter\<close> or \<^verbatim>\<open>map\<close> in
  this call, so \<^verbatim>\<open>overParent === updated\<close> is false. \<^verbatim>\<open>activeParent[0]\<close> is the
  head of the array the node was found in, which holds at least that node
  (\<open>findNode_parent_nonempty\<close> below).
\<close>

definition tree_handleDragEnd :: "TreeNode list \<Rightarrow> string \<Rightarrow> string option \<Rightarrow> TreeNode list" where
  "tree_handleDragEnd data activeId over =
     (case over of
        None \<Rightarrow> data
      | Some overId \<Rightarrow>
          if activeId = overId then data
          else (case findNode data activeId of
             None \<Rightarrow> data
           | Some activeFound \<Rightarrow>
              (case findNode data overId of
                 None \<Rightarrow> data
               | Some overFound \<Rightarrow>
                  let activeNode = found_node activeFound;
                      activeParent = found_parent activeFound;
                      activeIndex = found_index activeFound;
                      overNode = found_node overFound;
                      overParent = found_parent overFound;
                      overIndex = found_index overFound
                  in if isArray (children activeNode) \<and> isDescendant overId activeNode
                     then data
                     else
                       let updated =
                             (if found_root activeFound
                              then filter_index_neq activeIndex data
                              else updateNode data (node_id (hd activeParent))
                                     (\<lambda>node. with_children
                                        (Some (or_empty (map_option (filter_index_neq activeIndex)
                                                          (children node)))) node));
                           canHaveChildren = (children overNode = None \<or> isArray (children overNode))
                       in if canHaveChildren
                          then updateNode updated overId
                                 (\<lambda>node. with_isExpanded (Some True)
                                    (with_children (Some (or_empty (children node) @ [activeNode])) node))
                          else
                            let targetIndex = (if overIndex \<ge> activeIndex then overIndex + 1 else overIndex)
                            in if False
                               then splice_insert targetIndex activeNode updated
                               else updateNode updated (node_id (hd overParent))
                                      (\<lambda>node. with_children
                                         (Some (splice_insert targetIndex activeNode
                                                  (or_empty (children node)))) node))))"

text \<open>
  The sample forest of \<^verbatim>\<open>tree-view/src/App.tsx\<close>; fixed strings stand for the
  generated ids.
\<close>

definition initialData :: "TreeNode list" where
  "initialData =
     [TreeNode ''documents'' ''Documents''
        (Some [TreeNode ''work'' ''Work'' None (Some False) None (Some False),
               TreeNode ''personal'' ''Personal'' None (Some False) None (Some False)])
        (Some True) None (Some True),
      TreeNode ''projects'' ''Projects'' None (Some False) None (Some False),
      TreeNode ''downloads'' ''Downloads'' None (Some False) None (Some False)]"

subsection \<open>What the view lets the user drag (\<^verbatim>\<open>TreeView.tsx\<close>, \<^verbatim>\<open>TreeNode.tsx\<close>)\<close>

text \<open>
  \<^verbatim>\<open>getFlatNodeIds\<close>: the ids handed to the sortable context, that is the nodes that
  are on screen (a node's children are listed when it has a children array and is
  expanded).
\<close>

fun getFlatNodeIds :: "TreeNode list \<Rightarrow> string list" where
  "getFlatNodeIds [] = []"
| "getFlatNodeIds (n # ns) =
     node_id n #
     (case children n of
        Some cs \<Rightarrow> if truthy (isExpanded n) then getFlatNodeIds cs else []
      | None \<Rightarrow> []) @ getFlatNodeIds ns"

text \<open>
  \<^verbatim>\<open>hasChildren\<close> and \<^verbatim>\<open>isLeaf\<close> of \<^verbatim>\<open>TreeNode.tsx\<close>. The component spreads the drag
  listeners on a node only when it is not a leaf, so the dragged node of a drag-end
  always has a children array; every node on screen can be dropped on.
\<close>

definition hasChildren :: "TreeNode \<Rightarrow> bool" where
  "hasChildren n = (case children n of Some cs \<Rightarrow> length cs > 0 | None \<Rightarrow> False)"

definition isLeaf :: "TreeNode \<Rightarrow> bool" where
  "isLeaf n = (\<not> hasChildren n \<and> \<not> isArray (children n))"

text \<open>
  A drag-end with these two ids can come from the view: both nodes are on screen
  and the dragged one carries the drag listeners.
\<close>

definition can_drag :: "TreeNode list \<Rightarrow> string \<Rightarrow> string \<Rightarrow> bool" where
  "can_drag data activeId overId =
     (activeId \<in> set (getFlatNodeIds data) \<and> overId \<in> set (getFlatNodeIds data) \<and>
      (case findNode data activeId of
         Some activeFound \<Rightarrow> \<not> isLeaf (found_node activeFound)
       | None \<Rightarrow> False))"

subsection \<open>Observations on a snapshot\<close>

text \<open>The ids of all cards of a board, column after column.\<close>

definition cardIds :: "Column list \<Rightarrow> string list" where
  "cardIds columns = concat (map (\<lambda>col. map card_id (cards col)) columns)"

text \<open>The ids of all nodes of a forest, in depth-first order.\<close>

fun nodeIds :: "TreeNode list \<Rightarrow> string list" where
  "nodeIds [] = []"
| "nodeIds (n # ns) =
     node_id n # (case children n of Some cs \<Rightarrow> nodeIds cs | None \<Rightarrow> []) @ nodeIds ns"

text \<open>All nodes of a forest, in depth-first order.\<close>

fun allNodes :: "TreeNode list \<Rightarrow> TreeNode list" where
  "allNodes [] = []"
| "allNodes (n # ns) =
     n # (case children n of Some cs \<Rightarrow> allNodes cs | None \<Rightarrow> []) @ allNodes ns"

text \<open>
  What a node holds itself: its id, name and flags, and the ids of its children.
\<close>

definition node_fields ::
  "TreeNode \<Rightarrow> string \<times> string \<times> bool option \<times> bool option \<times> bool option \<times> string list option" where
  "node_fields n =
     (node_id n, name n, isExpanded n, isLoading n, hasLoaded n, map_option (map node_id) (children n))"

text \<open>The cards of the first column with a given id, if there is one.\<close>

definition column_cards :: "Column list \<Rightarrow> string \<Rightarrow> Card list option" where
  "column_cards columns k = map_option cards (find (\<lambda>col. column_id col = k) columns)"

text \<open>The frame of a board: ids and titles of its columns, in order.\<close>

definition column_frame :: "Column list \<Rightarrow> (string \<times> string) list" where
  "column_frame columns = map (\<lambda>col. (column_id col, column_title col)) columns"


section \<open>Kanban board: the columns are a frame\<close>

lemma column_frame_map_cards:
  "(\<And>col. col \<in> set columns \<Longrightarrow>
      column_id (f col) = column_id col \<and> column_title (f col) = column_title col) \<Longrightarrow>
   column_frame (map f columns) = column_frame columns"
  by (simp add: column_frame_def)

text \<open>
  Claim C10. Every operation of the board (adding, editing and deleting a card, and
  every branch of the drag-end move) leaves the number of columns, their order,
  their ids and their titles as they were: only the \<open>cards\<close> of columns can differ.
\<close>

theorem C10_column_frame_preserved:
  "column_frame (handleAddCard columns columnId title newId) = column_frame columns \<and>
   column_frame (handleEditCard columns cardId newTitle) = column_frame columns \<and>
   column_frame (handleDeleteCard columns cardId) = column_frame columns \<and>
   column_frame (kanban_handleDragEnd columns activeId over) = column_frame columns"
proof (intro conjI)
  show "column_frame (handleAddCard columns columnId title newId) = column_frame columns"
    unfolding handleAddCard_def Let_def
    by (rule column_frame_map_cards) auto
  show "column_frame (handleEditCard columns cardId newTitle) = column_frame columns"
    unfolding handleEditCard_def
    by (rule column_frame_map_cards) auto
  show "column_frame (handleDeleteCard columns cardId) = column_frame columns"
    unfolding handleDeleteCard_def
    by (rule column_frame_map_cards) auto
  show "column_frame (kanban_handleDragEnd columns activeId over) = column_frame columns"
    unfolding kanban_handleDragEnd_def Let_def
    by (auto split: option.splits prod.splits intro!: column_frame_map_cards)
qed

section \<open>Kanban board: lookups\<close>

lemma findIndex_None_iff: "findIndex p xs = None \<longleftrightarrow> (\<forall>x\<in>set xs. \<not> p x)"
  by (induction xs) auto

lemma findIndex_Some: "findIndex p xs = Some i \<Longrightarrow> i < length xs \<and> p (xs ! i)"
  by (induction xs arbitrary: i) (auto split: if_splits)

lemma findIndex_absent:
  "a \<notin> card_id ` set cs \<Longrightarrow> findIndex (\<lambda>c. card_id c = a) cs = None"
  by (auto simp: findIndex_None_iff)

lemma find_source_skip:
  "activeId \<notin> set (cardIds before) \<Longrightarrow>
   find_source (before @ rest) activeId = find_source rest activeId"
  by (induction before) (simp_all add: cardIds_def findIndex_absent)

lemma find_target_skip:
  "overId \<notin> set (cardIds before) \<Longrightarrow>
   find_target (before @ rest) overId = find_target rest overId"
  by (induction before) (simp_all add: cardIds_def findIndex_absent)

lemma map_other_columns:
  "k \<notin> column_id ` set columns \<Longrightarrow>
   map (\<lambda>col. if column_id col = k then f col else col) columns = columns"
  by (induction columns) auto


section \<open>Kanban board: reordering inside a column\<close>

text \<open>
  Claim C4. In a column \<open>todo = [c1, c2, c3]\<close>, dragging \<open>c1\<close> onto \<open>c3\<close> (target
  position 2) gives \<open>todo = [c2, c3, c1]\<close>: the dragged card is removed first and
  the target index is used on the sequence after the removal. The board may have
  any other columns before and after \<open>todo\<close>; the three cards have different ids,
  no earlier column holds a card with the id of \<open>c1\<close> or \<open>c3\<close>, and the id of \<open>c3\<close> is
  not the id of a column (a drop on a column is another branch).
\<close>

theorem C4_reorder_within_column:
  assumes ids: "card_id c1 \<noteq> card_id c2" "card_id c1 \<noteq> card_id c3" "card_id c2 \<noteq> card_id c3"
    and before: "card_id c1 \<notin> set (cardIds before)" "card_id c3 \<notin> set (cardIds before)"
    and over_card: "card_id c3 \<notin> column_id ` set (before @ todo # after)"
    and todo: "todo = \<lparr>column_id = ''todo'', column_title = t, cards = [c1, c2, c3]\<rparr>"
    and others: "''todo'' \<notin> column_id ` set (before @ after)"
  shows "kanban_handleDragEnd (before @ todo # after) (card_id c1) (Some (card_id c3)) =
         before @ todo\<lparr>cards := [c2, c3, c1]\<rparr> # after"
proof -
  have src: "find_source (before @ todo # after) (card_id c1) = Some (todo, 0, c1)"
    using before(1) todo by (simp add: find_source_skip)
  have tgt: "find_target (before @ todo # after) (card_id c3) = Some (''todo'', 2)"
    using before(2) todo ids by (simp add: find_target_skip)
  have col: "find (\<lambda>col. column_id col = card_id c3) (before @ todo # after) = None"
    unfolding find_None_iff using over_card by (metis imageI)
  have sel: "column_id todo = ''todo''" "cards todo = [c1, c2, c3]"
    by (simp_all add: todo)
  show ?thesis
    unfolding kanban_handleDragEnd_def
    using ids others
    by (simp add: src tgt col Let_def splice_remove_def splice_insert_def sel
        map_other_columns image_Un)
qed

theorem C4_reorder_within_column_witness:
  "kanban_handleDragEnd
     [\<lparr>column_id = ''backlog'', column_title = ''Backlog'',
         cards = [\<lparr>card_id = ''c0'', card_title = ''Zero''\<rparr>]\<rparr>,
      \<lparr>column_id = ''todo'', column_title = ''Todo'',
         cards = [\<lparr>card_id = ''c1'', card_title = ''One''\<rparr>,
                  \<lparr>card_id = ''c2'', card_title = ''Two''\<rparr>,
                  \<lparr>card_id = ''c3'', card_title = ''Three''\<rparr>]\<rparr>,
      \<lparr>column_id = ''done'', column_title = ''Done'', cards = []\<rparr>]
     ''c1'' (Some ''c3'') =
     [\<lparr>column_id = ''backlog'', column_title = ''Backlog'',
         cards = [\<lparr>card_id = ''c0'', card_title = ''Zero''\<rparr>]\<rparr>,
      \<lparr>column_id = ''todo'', column_title = ''Todo'',
         cards = [\<lparr>card_id = ''c2'', card_title = ''Two''\<rparr>,
                  \<lparr>card_id = ''c3'', card_title = ''Three''\<rparr>,
                  \<lparr>card_id = ''c1'', card_title = ''One''\<rparr>]\<rparr>,
      \<lparr>column_id = ''done'', column_title = ''Done'', cards = []\<rparr>]"
  using C4_reorder_within_column
    [of "\<lparr>card_id = ''c1'', card_title = ''One''\<rparr>"
        "\<lparr>card_id = ''c2'', card_title = ''Two''\<rparr>"
        "\<lparr>card_id = ''c3'', card_title = ''Three''\<rparr>"
        "[\<lparr>column_id = ''backlog'', column_title = ''Backlog'',
            cards = [\<lparr>card_id = ''c0'', card_title = ''Zero''\<rparr>]\<rparr>]"
        "\<lparr>column_id = ''todo'', column_title = ''Todo'',
           cards = [\<lparr>card_id = ''c1'', card_title = ''One''\<rparr>,
                    \<lparr>card_id = ''c2'', card_title = ''Two''\<rparr>,
                    \<lparr>card_id = ''c3'', card_title = ''Three''\<rparr>]\<rparr>"
        "[\<lparr>column_id = ''done'', column_title = ''Done'', cards = []\<rparr>]" "''Todo''"]
  by (simp add: cardIds_def)

section \<open>Tree view: basic facts\<close>

declare updateNode.simps [simp del]
declare deleteNode.simps [simp del]
declare addChildNode.simps [simp del]
declare isDescendant.simps [simp del]

lemma updateNode_Nil [simp]: "updateNode [] ident updater = []"
  by (simp add: updateNode.simps)

lemma updateNode_Cons [simp]:
  "updateNode (n # ns) ident updater =
     (if node_id n = ident then updater n
      else (case children n of
              Some cs \<Rightarrow> with_children (Some (updateNode cs ident updater)) n
            | None \<Rightarrow> n)) # updateNode ns ident updater"
  by (simp add: updateNode.simps [of "n # ns"] updateNode.simps [of ns])

lemma deleteNode_Nil [simp]: "deleteNode [] ident = []"
  by (simp add: deleteNode.simps)

lemma deleteNode_Cons [simp]:
  "deleteNode (n # ns) ident =
     (if node_id n = ident then deleteNode ns ident
      else (case children n of
              Some cs \<Rightarrow> with_children (Some (deleteNode cs ident)) n
            | None \<Rightarrow> n) # deleteNode ns ident)"
  by (simp add: deleteNode.simps [of "n # ns"] deleteNode.simps [of ns])

lemma addChildNode_Nil [simp]: "addChildNode [] parentId newNode = []"
  by (simp add: addChildNode.simps)

lemma addChildNode_Cons [simp]:
  "addChildNode (n # ns) parentId newNode =
     (if node_id n = parentId
      then with_isExpanded (Some True)
             (with_children (Some (or_empty (children n) @ [newNode])) n)
      else (case children n of
              Some cs \<Rightarrow> with_children (Some (addChildNode cs parentId newNode)) n
            | None \<Rightarrow> n)) # addChildNode ns parentId newNode"
  by (simp add: addChildNode.simps [of "n # ns"] addChildNode.simps [of ns])

lemma with_sel [simp]:
  "node_id (with_name v n) = node_id n" "name (with_name v n) = v"
  "children (with_name v n) = children n" "isExpanded (with_name v n) = isExpanded n"
  "isLoading (with_name v n) = isLoading n" "hasLoaded (with_name v n) = hasLoaded n"
  "node_id (with_children w n) = node_id n" "name (with_children w n) = name n"
  "children (with_children w n) = w" "isExpanded (with_children w n) = isExpanded n"
  "isLoading (with_children w n) = isLoading n" "hasLoaded (with_children w n) = hasLoaded n"
  "node_id (with_isExpanded b n) = node_id n" "name (with_isExpanded b n) = name n"
  "children (with_isExpanded b n) = children n" "isExpanded (with_isExpanded b n) = b"
  "isLoading (with_isExpanded b n) = isLoading n" "hasLoaded (with_isExpanded b n) = hasLoaded n"
  "node_id (with_isLoading b n) = node_id n" "name (with_isLoading b n) = name n"
  "children (with_isLoading b n) = children n" "isExpanded (with_isLoading b n) = isExpanded n"
  "isLoading (with_isLoading b n) = b" "hasLoaded (with_isLoading b n) = hasLoaded n"
  "node_id (with_hasLoaded b n) = node_id n" "name (with_hasLoaded b n) = name n"
  "children (with_hasLoaded b n) = children n" "isExpanded (with_hasLoaded b n) = isExpanded n"
  "isLoading (with_hasLoaded b n) = isLoading n" "hasLoaded (with_hasLoaded b n) = b"
  by (simp_all add: with_name_def with_children_def with_isExpanded_def with_isLoading_def
      with_hasLoaded_def)

lemma with_same [simp]:
  "with_name (name n) n = n" "children n = w \<Longrightarrow> with_children w n = n"
  by (auto simp: with_name_def with_children_def)

lemma nodeIds_allNodes: "nodeIds f = map node_id (allNodes f)"
  by (induction f rule: nodeIds.induct) (auto split: option.splits)

lemma nodeIds_append [simp]: "nodeIds (xs @ ys) = nodeIds xs @ nodeIds ys"
  by (induction xs) auto

lemma allNodes_append [simp]: "allNodes (xs @ ys) = allNodes xs @ allNodes ys"
  by (induction xs) auto

lemma updateNode_absent:
  "ident \<notin> set (nodeIds f) \<Longrightarrow> updateNode f ident updater = f"
  by (induction f rule: nodeIds.induct) (auto split: option.splits)

lemma deleteNode_absent:
  "ident \<notin> set (nodeIds f) \<Longrightarrow> deleteNode f ident = f"
  by (induction f rule: nodeIds.induct) (auto split: option.splits)

lemma addChildNode_absent:
  "parentId \<notin> set (nodeIds f) \<Longrightarrow> addChildNode f parentId newNode = f"
  by (induction f rule: nodeIds.induct) (auto split: option.splits)

lemma findNode_loop_None_iff:
  "findNode_loop nodes root i rest ident = None \<longleftrightarrow> ident \<notin> set (nodeIds rest)"
proof (induction rest arbitrary: nodes root i rule: nodeIds.induct)
  case 1
  then show ?case by simp
next
  case (2 n ns)
  have tl: "findNode_loop nodes root (Suc i) ns ident = None \<longleftrightarrow> ident \<notin> set (nodeIds ns)"
    by (rule "2.IH"(2))
  show ?case
  proof (cases "children n")
    case None
    with tl show ?thesis by simp
  next
    case (Some cs)
    have "findNode_loop cs False 0 cs ident = None \<longleftrightarrow> ident \<notin> set (nodeIds cs)"
      by (rule "2.IH"(1) [OF Some])
    with Some tl show ?thesis
      by (cases "findNode_loop cs False 0 cs ident") auto
  qed
qed

lemma findNode_None_iff: "findNode f ident = None \<longleftrightarrow> ident \<notin> set (nodeIds f)"
  by (simp add: findNode_def findNode_loop_None_iff)

lemma findNode_loop_id:
  "findNode_loop nodes root i rest ident = Some r \<Longrightarrow> node_id (found_node r) = ident"
  by (induction rest arbitrary: nodes root i rule: nodeIds.induct)
     (auto split: option.splits if_splits)

lemma findNode_loop_parent:
  "findNode_loop nodes root i rest ident = Some r \<Longrightarrow> nodes \<noteq> [] \<or> rest = [] \<Longrightarrow>
   found_parent r \<noteq> []"
  by (induction rest arbitrary: nodes root i rule: nodeIds.induct)
     (auto split: option.splits if_splits)

lemma findNode_parent_nonempty: "findNode f ident = Some r \<Longrightarrow> found_parent r \<noteq> []"
  unfolding findNode_def by (rule findNode_loop_parent) auto

lemma findNode_loop_unique:
  "distinct (nodeIds rest) \<Longrightarrow> n \<in> set (allNodes rest) \<Longrightarrow>
   \<exists>r. findNode_loop nodes root i rest (node_id n) = Some r \<and> found_node r = n"
proof (induction rest arbitrary: nodes root i rule: nodeIds.induct)
  case 1
  then show ?case by simp
next
  case (2 m ms)
  show ?case
  proof (cases "node_id m = node_id n")
    case True
    with "2.prems" have "n = m"
      by (auto simp: nodeIds_allNodes split: option.splits)
    with True show ?thesis by simp
  next
    case False
    show ?thesis
    proof (cases "children m")
      case None
      with False "2.prems" "2.IH"(2) [of nodes root "Suc i"] show ?thesis by auto
    next
      case (Some cs)
      show ?thesis
      proof (cases "n \<in> set (allNodes cs)")
        case True
        with Some "2.prems" "2.IH"(1) [of cs cs False 0] False show ?thesis by auto
      next
        case nin: False
        with Some False "2.prems" have tl: "n \<in> set (allNodes ms)" "distinct (nodeIds ms)"
          by auto
        with Some "2.prems"(1) have "node_id n \<notin> set (nodeIds cs)"
          by (auto simp: nodeIds_allNodes)
        then have "findNode_loop cs False 0 cs (node_id n) = None"
          by (simp add: findNode_loop_None_iff)
        with tl Some False "2.IH"(2) [of nodes root "Suc i"] show ?thesis by auto
      qed
    qed
  qed
qed

lemma findNode_unique:
  "distinct (nodeIds f) \<Longrightarrow> n \<in> set (allNodes f) \<Longrightarrow>
   \<exists>r. findNode f (node_id n) = Some r \<and> found_node r = n"
  unfolding findNode_def by (rule findNode_loop_unique)

lemma nodeIds_member_child:
  "ident \<in> set (nodeIds cs) \<longleftrightarrow> (\<exists>c\<in>set cs. ident \<in> set (nodeIds [c]))"
  by (induction cs) auto

lemma isDescendant_iff: "isDescendant ident n \<longleftrightarrow> ident \<in> set (nodeIds [n])"
proof (induction ident n rule: isDescendant.induct)
  case (1 nodeId ancestor)
  show ?case
  proof (cases "node_id ancestor = nodeId")
    case True
    then show ?thesis by (subst isDescendant.simps) simp
  next
    case False
    show ?thesis
    proof (cases "children ancestor")
      case None
      with False show ?thesis by (subst isDescendant.simps) simp
    next
      case (Some cs)
      have "isDescendant nodeId ancestor \<longleftrightarrow> (\<exists>c\<in>set cs. isDescendant nodeId c)"
        using False Some by (subst isDescendant.simps) (simp add: list_ex_iff)
      also have "\<dots> \<longleftrightarrow> (\<exists>c\<in>set cs. nodeId \<in> set (nodeIds [c]))"
        using "1.IH" [OF False Some] by blast
      also have "\<dots> \<longleftrightarrow> nodeId \<in> set (nodeIds cs)"
        by (rule nodeIds_member_child [symmetric])
      finally show ?thesis using False Some by simp
    qed
  qed
qed

lemma updateNode_fixed:
  "(\<And>m. m \<in> set (allNodes f) \<Longrightarrow> node_id m = ident \<Longrightarrow> updater m = m) \<Longrightarrow>
   updateNode f ident updater = f"
  by (induction f rule: nodeIds.induct) (auto split: option.splits)

lemma allNodes_id_inj:
  "distinct (nodeIds f) \<Longrightarrow> m \<in> set (allNodes f) \<Longrightarrow> n \<in> set (allNodes f) \<Longrightarrow>
   node_id m = node_id n \<Longrightarrow> m = n"
  unfolding nodeIds_allNodes distinct_map by (auto dest: inj_onD)


section \<open>Tree view: a node is not moved into its own subtree\<close>

text \<open>
  Claim C3. In a forest with unique ids, dragging node \<open>A\<close> onto \<open>B\<close> leaves the
  forest as it is whenever \<open>B\<close> is \<open>A\<close> itself or \<open>B\<close> is the id of a node of the subtree
  rooted at \<open>A\<close>.
\<close>

theorem C3_cycle_rejection:
  assumes "b = a \<or>
           (distinct (nodeIds forest) \<and>
            (\<exists>nA\<in>set (allNodes forest). node_id nA = a \<and> b \<in> set (nodeIds [nA])))"
  shows "tree_handleDragEnd forest a (Some b) = forest"
proof (cases "b = a")
  case True
  then show ?thesis by (simp add: tree_handleDragEnd_def)
next
  case False
  with assms obtain nA where d: "distinct (nodeIds forest)" and nA: "nA \<in> set (allNodes forest)"
    and a: "node_id nA = a" and b: "b \<in> set (nodeIds [nA])"
    by blast
  from findNode_unique [OF d nA] a obtain r where r: "findNode forest a = Some r" "found_node r = nA"
    by auto
  from b False a have arr: "isArray (children nA)"
    by (cases "children nA") (auto simp: isArray_def)
  from b have desc: "isDescendant b nA"
    by (simp add: isDescendant_iff)
  show ?thesis
    using False r arr desc
    by (simp add: tree_handleDragEnd_def Let_def split: option.splits)
qed

theorem C3_cycle_rejection_witness:
  "tree_handleDragEnd
     [TreeNode ''docs'' ''Documents''
        (Some [TreeNode ''work'' ''Work'' (Some [TreeNode ''q3'' ''Q3'' None None None None])
                 None None None,
               TreeNode ''home'' ''Personal'' None None None None])
        (Some True) None (Some True),
      TreeNode ''proj'' ''Projects'' None None None None]
     ''docs'' (Some ''q3'') =
     [TreeNode ''docs'' ''Documents''
        (Some [TreeNode ''work'' ''Work'' (Some [TreeNode ''q3'' ''Q3'' None None None None])
                 None None None,
               TreeNode ''home'' ''Personal'' None None None None])
        (Some True) None (Some True),
      TreeNode ''proj'' ''Projects'' None None None None]"
  by (rule C3_cycle_rejection) simp


section \<open>Tree view: renaming a node to the name it has\<close>

text \<open>
  Claim C8. In a forest with unique ids, editing a node of the forest with the name
  it already has gives a forest equal to the input.
\<close>

theorem C8_edit_same_name:
  assumes "distinct (nodeIds forest)" and "n \<in> set (allNodes forest)"
  shows "handleEdit forest (node_id n) (name n) = forest"
  unfolding handleEdit_def
proof (rule updateNode_fixed)
  fix m
  assume "m \<in> set (allNodes forest)" and "node_id m = node_id n"
  with assms have "m = n" by (auto intro: allNodes_id_inj)
  then show "with_name (name n) m = m" by simp
qed

theorem C8_edit_same_name_witness:
  "handleEdit
     [TreeNode ''docs'' ''Documents''
        (Some [TreeNode ''work'' ''Work'' None None None None,
               TreeNode ''home'' ''Personal'' None None None None])
        (Some True) None (Some True),
      TreeNode ''proj'' ''Projects'' None None None None]
     ''home'' ''Personal'' =
     [TreeNode ''docs'' ''Documents''
        (Some [TreeNode ''work'' ''Work'' None None None None,
               TreeNode ''home'' ''Personal'' None None None None])
        (Some True) None (Some True),
      TreeNode ''proj'' ''Projects'' None None None None]"
  using C8_edit_same_name
    [of "[TreeNode ''docs'' ''Documents''
        (Some [TreeNode ''work'' ''Work'' None None None None,
               TreeNode ''home'' ''Personal'' None None None None])
        (Some True) None (Some True),
      TreeNode ''proj'' ''Projects'' None None None None]"
      "TreeNode ''home'' ''Personal'' None None None None"]
  by simp


section \<open>Unknown ids\<close>

lemma find_source_absent:
  "x \<notin> set (cardIds columns) \<Longrightarrow> find_source columns x = None"
  using find_source_skip [of x columns "[]"] by simp

lemma find_target_absent:
  "x \<notin> set (cardIds columns) \<Longrightarrow> find_target columns x = None"
  using find_target_skip [of x columns "[]"] by simp

lemma edit_cards_absent:
  "x \<notin> card_id ` set cs \<Longrightarrow>
   map (\<lambda>card. if card_id card = x then card\<lparr>card_title := t\<rparr> else card) cs = cs"
  by (induction cs) auto

lemma delete_cards_absent:
  "x \<notin> card_id ` set cs \<Longrightarrow> filter (\<lambda>card. card_id card \<noteq> x) cs = cs"
  by (induction cs) auto

lemma handleEditCard_absent:
  "x \<notin> set (cardIds columns) \<Longrightarrow> handleEditCard columns x t = columns"
  unfolding handleEditCard_def cardIds_def
  by (induction columns) (simp_all add: edit_cards_absent)

lemma handleDeleteCard_absent:
  "x \<notin> set (cardIds columns) \<Longrightarrow> handleDeleteCard columns x = columns"
  unfolding handleDeleteCard_def cardIds_def
  by (induction columns) (simp_all add: delete_cards_absent)

text \<open>
  Claim C5. For an id that is the id of no card, no column and no node of the
  snapshot, editing, deleting and moving (as the dragged item or as the drop
  target), toggling, and adding to a column or parent with that id all return the
  snapshot they were given. The handlers have no failing branch: the only partial
  reads are the card at the index \<open>findIndex\<close> returned and the first element of
  the array a node was found in.
\<close>

theorem C5_unknown_id_noop:
  assumes "x \<notin> set (cardIds columns)" and "x \<notin> column_id ` set columns"
    and "x \<notin> set (nodeIds forest)"
  shows "handleEditCard columns x t = columns \<and>
         handleDeleteCard columns x = columns \<and>
         kanban_handleDragEnd columns x over = columns \<and>
         kanban_handleDragEnd columns a (Some x) = columns \<and>
         handleAddCard columns x t newId = columns \<and>
         handleToggle forest x = forest \<and>
         handleEdit forest x nm = forest \<and>
         handleDelete forest x = forest \<and>
         tree_handleDragEnd forest x over = forest \<and>
         tree_handleDragEnd forest a (Some x) = forest \<and>
         handleAddChild forest x nm newId = forest"
proof (intro conjI)
  show "handleEditCard columns x t = columns"
    using assms(1) by (rule handleEditCard_absent)
  show "handleDeleteCard columns x = columns"
    using assms(1) by (rule handleDeleteCard_absent)
  show "kanban_handleDragEnd columns x over = columns"
    using assms(1) by (simp add: kanban_handleDragEnd_def find_source_absent split: option.splits)
  have "find (\<lambda>col. column_id col = x) columns = None"
    unfolding find_None_iff using assms(2) by (metis imageI)
  then show "kanban_handleDragEnd columns a (Some x) = columns"
    using assms(1)
    by (simp add: kanban_handleDragEnd_def find_target_absent split: option.splits prod.splits)
  show "handleAddCard columns x t newId = columns"
    using assms(2) by (simp add: handleAddCard_def map_other_columns)
  show "handleToggle forest x = forest"
    using assms(3) by (simp add: handleToggle_def updateNode_absent)
  show "handleEdit forest x nm = forest"
    using assms(3) by (simp add: handleEdit_def updateNode_absent)
  show "handleDelete forest x = forest"
    using assms(3) by (simp add: handleDelete_def deleteNode_absent)
  have nf: "findNode forest x = None"
    using assms(3) by (simp add: findNode_None_iff)
  show "tree_handleDragEnd forest x over = forest"
    by (simp add: tree_handleDragEnd_def nf split: option.splits)
  show "tree_handleDragEnd forest a (Some x) = forest"
    by (simp add: tree_handleDragEnd_def nf split: option.splits)
  show "handleAddChild forest x nm newId = forest"
    using assms(3) by (simp add: handleAddChild_def addChildNode_absent)
qed

theorem C5_unknown_id_noop_witness:
  "handleEditCard [\<lparr>column_id = ''todo'', column_title = ''Todo'',
                     cards = [\<lparr>card_id = ''c1'', card_title = ''One''\<rparr>]\<rparr>] ''zz'' ''New'' =
     [\<lparr>column_id = ''todo'', column_title = ''Todo'',
        cards = [\<lparr>card_id = ''c1'', card_title = ''One''\<rparr>]\<rparr>] \<and>
   kanban_handleDragEnd [\<lparr>column_id = ''todo'', column_title = ''Todo'',
                     cards = [\<lparr>card_id = ''c1'', card_title = ''One''\<rparr>]\<rparr>] ''c1'' (Some ''zz'') =
     [\<lparr>column_id = ''todo'', column_title = ''Todo'',
        cards = [\<lparr>card_id = ''c1'', card_title = ''One''\<rparr>]\<rparr>] \<and>
   handleDelete [TreeNode ''docs'' ''Documents''
                   (Some [TreeNode ''work'' ''Work'' None None None None]) None None None] ''zz'' =
     [TreeNode ''docs'' ''Documents''
        (Some [TreeNode ''work'' ''Work'' None None None None]) None None None] \<and>
   tree_handleDragEnd [TreeNode ''docs'' ''Documents''
                   (Some [TreeNode ''work'' ''Work'' None None None None]) None None None]
      ''work'' (Some ''zz'') =
     [TreeNode ''docs'' ''Documents''
        (Some [TreeNode ''work'' ''Work'' None None None None]) None None None]"
  using C5_unknown_id_noop
    [where x = "''zz''" and t = "''New''"
       and columns = "[\<lparr>column_id = ''todo'', column_title = ''Todo'',
                     cards = [\<lparr>card_id = ''c1'', card_title = ''One''\<rparr>]\<rparr>]"
       and forest = "[TreeNode ''docs'' ''Documents''
            (Some [TreeNode ''work'' ''Work'' None None None None]) None None None]"]
  by (simp add: cardIds_def)

section \<open>Tree view: looking up an updated node\<close>

lemma findNode_loop_updateNode:
  assumes "\<And>m. node_id (updater m) = node_id m"
  shows "map_option found_node (findNode_loop nodes' root' k' (updateNode rest ident updater) ident) =
         map_option (\<lambda>r. updater (found_node r)) (findNode_loop nodes root k rest ident)"
proof (induction rest arbitrary: nodes nodes' root root' k k' rule: nodeIds.induct)
  case 1
  then show ?case by simp
next
  case (2 n ns)
  have tl: "map_option found_node
              (findNode_loop nodes' root' (Suc k') (updateNode ns ident updater) ident) =
            map_option (\<lambda>r. updater (found_node r)) (findNode_loop nodes root (Suc k) ns ident)"
    by (rule "2.IH"(2))
  show ?case
  proof (cases "node_id n = ident")
    case True
    then show ?thesis by (simp add: assms)
  next
    case False
    show ?thesis
    proof (cases "children n")
      case None
      with False tl show ?thesis by simp
    next
      case (Some cs)
      have sub: "map_option found_node
                   (findNode_loop (updateNode cs ident updater) False 0
                      (updateNode cs ident updater) ident) =
                 map_option (\<lambda>r. updater (found_node r)) (findNode_loop cs False 0 cs ident)"
        by (rule "2.IH"(1) [OF Some])
      show ?thesis
      proof (cases "findNode_loop cs False 0 cs ident")
        case None
        with sub have "findNode_loop (updateNode cs ident updater) False 0
                         (updateNode cs ident updater) ident = None"
          by simp
        with None Some False tl show ?thesis by simp
      next
        case (Some r)
        with sub obtain r' where
          "findNode_loop (updateNode cs ident updater) False 0
             (updateNode cs ident updater) ident = Some r'"
          "found_node r' = updater (found_node r)"
          by auto
        with Some \<open>children n = Some cs\<close> False show ?thesis by simp
      qed
    qed
  qed
qed

lemma findNode_updateNode:
  assumes "\<And>m. node_id (updater m) = node_id m"
  shows "map_option found_node (findNode (updateNode f ident updater) ident) =
         map_option (\<lambda>r. updater (found_node r)) (findNode f ident)"
  unfolding findNode_def by (rule findNode_loop_updateNode) (rule assms)


section \<open>Tree view: loading children\<close>

text \<open>
  Claim C6. For a node \<open>n\<close> that the lookup finds under its id in the forest:
  the first update of \<open>loadChildren\<close> sets \<open>isLoading\<close> to true on it; the update made
  when the fetch has resolved replaces its children by the fetched list and sets
  \<open>hasLoaded = true\<close>, \<open>isLoading = false\<close>, \<open>isExpanded = true\<close>; the update made
  when the fetch was rejected sets \<open>isLoading = false\<close> and keeps \<open>children\<close> and
  \<open>hasLoaded\<close>. The same holds for the handler as a whole, and its result is a
  forest in both cases: a rejected fetch gives the caller no error.
\<close>

theorem C6_loadChildren:
  assumes "findNode forest ident = Some r" and "found_node r = n"
  shows "map_option found_node (findNode (loadChildren_begin forest ident) ident) =
           Some (TreeNode ident (name n) (children n) (isExpanded n) (Some True) (hasLoaded n)) \<and>
         map_option found_node (findNode (loadChildren_resolved forest ident fetched) ident) =
           Some (TreeNode ident (name n) (Some fetched) (Some True) (Some False) (Some True)) \<and>
         map_option found_node (findNode (loadChildren_rejected forest ident) ident) =
           Some (TreeNode ident (name n) (children n) (isExpanded n) (Some False) (hasLoaded n)) \<and>
         map_option found_node (findNode (handleLoadChildren forest ident (Resolved fetched)) ident) =
           Some (TreeNode ident (name n) (Some fetched) (Some True) (Some False) (Some True)) \<and>
         map_option found_node (findNode (handleLoadChildren forest ident Rejected) ident) =
           Some (TreeNode ident (name n) (children n) (isExpanded n) (Some False) (hasLoaded n))"
proof -
  have nid: "node_id n = ident"
    using assms findNode_loop_id [of forest True 0 forest ident r] by (simp add: findNode_def)
  have start: "map_option found_node (findNode (loadChildren_begin forest ident) ident) =
           Some (TreeNode ident (name n) (children n) (isExpanded n) (Some True) (hasLoaded n))"
    unfolding loadChildren_begin_def
    using assms nid by (simp add: findNode_updateNode with_isLoading_def)
  have resolved: "map_option found_node (findNode (loadChildren_resolved f ident fetched) ident) =
           Some (TreeNode ident (name m) (Some fetched) (Some True) (Some False) (Some True))"
    if "map_option found_node (findNode f ident) = Some m" for f m
  proof -
    from that obtain q where q: "findNode f ident = Some q" "found_node q = m" by auto
    then have "node_id m = ident"
      using findNode_loop_id [of f True 0 f ident q] by (simp add: findNode_def)
    with q show ?thesis
      unfolding loadChildren_resolved_def
      by (simp add: findNode_updateNode with_isLoading_def with_isExpanded_def
          with_hasLoaded_def with_children_def)
  qed
  have rejected: "map_option found_node (findNode (loadChildren_rejected f ident) ident) =
           Some (TreeNode ident (name m) (children m) (isExpanded m) (Some False) (hasLoaded m))"
    if "map_option found_node (findNode f ident) = Some m" for f m
  proof -
    from that obtain q where q: "findNode f ident = Some q" "found_node q = m" by auto
    then have "node_id m = ident"
      using findNode_loop_id [of f True 0 f ident q] by (simp add: findNode_def)
    with q show ?thesis
      unfolding loadChildren_rejected_def
      by (simp add: findNode_updateNode with_isLoading_def)
  qed
  have here: "map_option found_node (findNode forest ident) = Some n"
    by (simp add: assms)
  show ?thesis
    using start resolved [OF here] rejected [OF here] resolved [OF start] rejected [OF start]
    by (simp add: handleLoadChildren_def)
qed

theorem C6_loadChildren_witness:
  "map_option found_node
     (findNode (handleLoadChildren
        [TreeNode ''docs'' ''Documents''
           (Some [TreeNode ''work'' ''Work'' None (Some False) None (Some False)]) None None None]
        ''work'' (Resolved (simulateLazyLoad ''k1'' ''k2''))) ''work'') =
   Some (TreeNode ''work'' ''Work'' (Some (simulateLazyLoad ''k1'' ''k2''))
           (Some True) (Some False) (Some True)) \<and>
   map_option found_node
     (findNode (handleLoadChildren
        [TreeNode ''docs'' ''Documents''
           (Some [TreeNode ''work'' ''Work'' None (Some False) None (Some False)]) None None None]
        ''work'' Rejected) ''work'') =
   Some (TreeNode ''work'' ''Work'' None (Some False) (Some False) (Some False))"
  using C6_loadChildren
    [where ident = "''work''" and n = "TreeNode ''work'' ''Work'' None (Some False) None (Some False)"
       and forest = "[TreeNode ''docs'' ''Documents''
           (Some [TreeNode ''work'' ''Work'' None (Some False) None (Some False)]) None None None]"
       and r = "\<lparr>found_node = TreeNode ''work'' ''Work'' None (Some False) None (Some False),
                 found_parent = [TreeNode ''work'' ''Work'' None (Some False) None (Some False)],
                 found_index = 0, found_root = False\<rparr>"
       and fetched = "simulateLazyLoad ''k1'' ''k2''"]
  by (simp add: findNode_def)

section \<open>Tree view: adding a child\<close>

lemma addChildNode_ids: "map node_id (addChildNode f parentId newNode) = map node_id f"
  by (induction f) (auto split: option.splits)

lemma filter_allNodes_absent:
  "ident \<notin> set (nodeIds f) \<Longrightarrow> filter (\<lambda>n. node_id n = ident) (allNodes f) = []"
  by (auto simp: nodeIds_allNodes filter_empty_conv)

lemma allNodes_or_empty:
  "allNodes (or_empty (children n)) = (case children n of Some cs \<Rightarrow> allNodes cs | None \<Rightarrow> [])"
  by (simp add: or_empty_def split: option.splits)

lemma addChildNode_others:
  "children newNode = None \<Longrightarrow>
   filter (\<lambda>x. fst x \<noteq> parentId \<and> fst x \<noteq> node_id newNode)
     (map node_fields (allNodes (addChildNode f parentId newNode))) =
   filter (\<lambda>x. fst x \<noteq> parentId \<and> fst x \<noteq> node_id newNode) (map node_fields (allNodes f))"
  by (induction f rule: nodeIds.induct)
     (auto simp: node_fields_def addChildNode_ids allNodes_or_empty split: option.splits)

lemma addChildNode_parent:
  "distinct (nodeIds f) \<Longrightarrow> p \<in> set (allNodes f) \<Longrightarrow> node_id newNode \<notin> set (nodeIds f) \<Longrightarrow>
   children newNode = None \<Longrightarrow>
   filter (\<lambda>n. node_id n = node_id p) (allNodes (addChildNode f (node_id p) newNode)) =
     [TreeNode (node_id p) (name p) (Some (or_empty (children p) @ [newNode])) (Some True)
        (isLoading p) (hasLoaded p)]"
proof (induction f rule: nodeIds.induct)
  case 1
  then show ?case by simp
next
  case (2 n ns)
  let ?pid = "node_id p"
  show ?case
  proof (cases "node_id n = ?pid")
    case True
    with "2.prems" have np: "n = p"
      by (auto simp: nodeIds_allNodes split: option.splits)
    from "2.prems"(1) np have absent: "?pid \<notin> set (nodeIds ns)"
      "?pid \<notin> set (nodeIds (or_empty (children p)))"
      by (auto simp: or_empty_def split: option.splits)
    from "2.prems"(3) np have "node_id newNode \<noteq> ?pid" by auto
    with np absent "2.prems"(4) show ?thesis
      by (simp add: addChildNode_absent filter_allNodes_absent with_isExpanded_def
          with_children_def)
  next
    case False
    show ?thesis
    proof (cases "children n")
      case None
      with False "2.prems" "2.IH"(2) show ?thesis by auto
    next
      case (Some cs)
      show ?thesis
      proof (cases "p \<in> set (allNodes cs)")
        case True
        with Some "2.prems"(1) have "?pid \<notin> set (nodeIds ns)"
          by (auto simp: nodeIds_allNodes)
        with True Some False "2.prems" "2.IH"(1) [OF Some] show ?thesis
          by (simp add: addChildNode_absent filter_allNodes_absent)
      next
        case nin: False
        with Some False "2.prems" have tl: "p \<in> set (allNodes ns)" by auto
        with Some "2.prems"(1) have "?pid \<notin> set (nodeIds cs)"
          by (auto simp: nodeIds_allNodes)
        with tl Some False "2.prems" "2.IH"(2) show ?thesis
          by (simp add: addChildNode_absent filter_allNodes_absent)
      qed
    qed
  qed
qed

lemma addChildNode_new:
  "distinct (nodeIds f) \<Longrightarrow> p \<in> set (allNodes f) \<Longrightarrow> node_id newNode \<notin> set (nodeIds f) \<Longrightarrow>
   children newNode = None \<Longrightarrow>
   filter (\<lambda>n. node_id n = node_id newNode) (allNodes (addChildNode f (node_id p) newNode)) =
     [newNode]"
proof (induction f rule: nodeIds.induct)
  case 1
  then show ?case by simp
next
  case (2 n ns)
  let ?pid = "node_id p"
  show ?case
  proof (cases "node_id n = ?pid")
    case True
    with "2.prems" have np: "n = p"
      by (auto simp: nodeIds_allNodes split: option.splits)
    from "2.prems"(1) np have absent: "?pid \<notin> set (nodeIds ns)"
      by auto
    from "2.prems"(3) np have "node_id newNode \<noteq> ?pid"
      "node_id newNode \<notin> set (nodeIds (or_empty (children p)))"
      "node_id newNode \<notin> set (nodeIds ns)"
      by (auto simp: or_empty_def split: option.splits)
    with np absent "2.prems"(4) show ?thesis
      by (simp add: addChildNode_absent filter_allNodes_absent with_isExpanded_def
          with_children_def)
  next
    case False
    from "2.prems"(3) have fresh: "node_id newNode \<noteq> node_id n"
      "node_id newNode \<notin> set (nodeIds ns)" by auto
    show ?thesis
    proof (cases "children n")
      case None
      with False fresh "2.prems" "2.IH"(2) show ?thesis by auto
    next
      case (Some cs)
      with "2.prems"(3) have fresh_cs: "node_id newNode \<notin> set (nodeIds cs)" by auto
      show ?thesis
      proof (cases "p \<in> set (allNodes cs)")
        case True
        with Some "2.prems"(1) have "?pid \<notin> set (nodeIds ns)"
          by (auto simp: nodeIds_allNodes)
        with True Some False fresh fresh_cs "2.prems" "2.IH"(1) [OF Some] show ?thesis
          by (simp add: addChildNode_absent filter_allNodes_absent)
      next
        case nin: False
        with Some False "2.prems" have tl: "p \<in> set (allNodes ns)" by auto
        with Some "2.prems"(1) have "?pid \<notin> set (nodeIds cs)"
          by (auto simp: nodeIds_allNodes)
        with tl Some False fresh fresh_cs "2.prems" "2.IH"(2) show ?thesis
          by (simp add: addChildNode_absent filter_allNodes_absent)
      qed
    qed
  qed
qed


text \<open>
  Claim C7. In a forest with unique ids, adding a child named \<open>nm\<close> under a node \<open>p\<close>
  of the forest, with a fresh id, gives a forest in which: exactly one node has the
  new id, and it has the given name, \<open>hasLoaded = false\<close> and no children array;
  the node with the id of \<open>p\<close> is \<open>p\<close> with the new node appended as the last element
  of its children (starting from the empty sequence if it had none) and
  \<open>isExpanded = true\<close>, whatever it was before; and every other node has the name,
  flags and child ids it had, in the same order.
\<close>

theorem C7_addChild:
  assumes "distinct (nodeIds forest)" and "p \<in> set (allNodes forest)"
    and "newId \<notin> set (nodeIds forest)"
  shows "filter (\<lambda>n. node_id n = newId) (allNodes (handleAddChild forest (node_id p) nm newId)) =
           [TreeNode newId nm None None None (Some False)] \<and>
         filter (\<lambda>n. node_id n = node_id p)
             (allNodes (handleAddChild forest (node_id p) nm newId)) =
           [TreeNode (node_id p) (name p)
              (Some (or_empty (children p) @ [TreeNode newId nm None None None (Some False)]))
              (Some True) (isLoading p) (hasLoaded p)] \<and>
         filter (\<lambda>x. fst x \<noteq> node_id p \<and> fst x \<noteq> newId)
             (map node_fields (allNodes (handleAddChild forest (node_id p) nm newId))) =
           filter (\<lambda>x. fst x \<noteq> node_id p) (map node_fields (allNodes forest))"
proof (intro conjI)
  let ?new = "TreeNode newId nm None None None (Some False)"
  have new: "node_id ?new = newId" "children ?new = None" by simp_all
  show "filter (\<lambda>n. node_id n = newId) (allNodes (handleAddChild forest (node_id p) nm newId)) =
          [?new]"
    using addChildNode_new [of forest p ?new] assms by (simp add: handleAddChild_def)
  show "filter (\<lambda>n. node_id n = node_id p)
             (allNodes (handleAddChild forest (node_id p) nm newId)) =
           [TreeNode (node_id p) (name p) (Some (or_empty (children p) @ [?new]))
              (Some True) (isLoading p) (hasLoaded p)]"
    using addChildNode_parent [of forest p ?new] assms by (simp add: handleAddChild_def)
  have "filter (\<lambda>x. fst x \<noteq> node_id p \<and> fst x \<noteq> newId) (map node_fields (allNodes forest)) =
        filter (\<lambda>x. fst x \<noteq> node_id p) (map node_fields (allNodes forest))"
    using assms(3) by (intro filter_cong) (auto simp: node_fields_def nodeIds_allNodes)
  then show "filter (\<lambda>x. fst x \<noteq> node_id p \<and> fst x \<noteq> newId)
             (map node_fields (allNodes (handleAddChild forest (node_id p) nm newId))) =
           filter (\<lambda>x. fst x \<noteq> node_id p) (map node_fields (allNodes forest))"
    using addChildNode_others [of ?new "node_id p" forest] by (simp add: handleAddChild_def)
qed

theorem C7_addChild_witness:
  "filter (\<lambda>n. node_id n = ''docs'')
     (allNodes (handleAddChild
        [TreeNode ''docs'' ''Documents''
           (Some [TreeNode ''work'' ''Work'' None None None None]) (Some False) None (Some True),
         TreeNode ''proj'' ''Projects'' None None None None]
        ''docs'' ''X'' ''n9'')) =
   [TreeNode ''docs'' ''Documents''
      (Some [TreeNode ''work'' ''Work'' None None None None,
             TreeNode ''n9'' ''X'' None None None (Some False)]) (Some True) None (Some True)]"
  using C7_addChild
    [where forest = "[TreeNode ''docs'' ''Documents''
           (Some [TreeNode ''work'' ''Work'' None None None None]) (Some False) None (Some True),
         TreeNode ''proj'' ''Projects'' None None None None]"
       and p = "TreeNode ''docs'' ''Documents''
           (Some [TreeNode ''work'' ''Work'' None None None None]) (Some False) None (Some True)"
       and newId = "''n9''" and nm = "''X''"]
  by (simp add: or_empty_def)

section \<open>Kanban board: dropping a card on a column\<close>

lemma findIndex_unique:
  "distinct (map card_id cs) \<Longrightarrow> c \<in> set cs \<Longrightarrow>
   \<exists>i. findIndex (\<lambda>x. card_id x = card_id c) cs = Some i \<and> cs ! i = c"
  by (induction cs) (auto simp: image_iff)

lemma find_source_unique:
  "distinct (cardIds columns) \<Longrightarrow> src \<in> set columns \<Longrightarrow> c \<in> set (cards src) \<Longrightarrow>
   \<exists>i. find_source columns (card_id c) = Some (src, i, c)"
proof (induction columns)
  case Nil
  then show ?case by simp
next
  case (Cons col rest)
  from Cons.prems(1) have d: "distinct (map card_id (cards col))" "distinct (cardIds rest)"
    and disj: "set (map card_id (cards col)) \<inter> set (cardIds rest) = {}"
    by (simp_all add: cardIds_def)
  show ?case
  proof (cases "c \<in> set (cards col)")
    case True
    from findIndex_unique [OF d(1) True] obtain i where
      i: "findIndex (\<lambda>x. card_id x = card_id c) (cards col) = Some i" "cards col ! i = c"
      by blast
    have "src = col"
    proof (rule ccontr)
      assume "src \<noteq> col"
      with Cons.prems(2) have "src \<in> set rest" by simp
      with Cons.prems(3) have "card_id c \<in> set (cardIds rest)"
        by (auto simp: cardIds_def)
      with True disj show False by auto
    qed
    with i show ?thesis by simp
  next
    case False
    with Cons.prems have src: "src \<in> set rest" by auto
    with Cons.prems(3) have "card_id c \<in> set (cardIds rest)"
      by (auto simp: cardIds_def)
    with disj have "card_id c \<notin> card_id ` set (cards col)" by auto
    then have "findIndex (\<lambda>x. card_id x = card_id c) (cards col) = None"
      by (rule findIndex_absent)
    with Cons.IH [OF d(2) src Cons.prems(3)] show ?thesis by simp
  qed
qed

lemma find_column_unique:
  "distinct (map column_id columns) \<Longrightarrow> col \<in> set columns \<Longrightarrow>
   find (\<lambda>x. column_id x = column_id col) columns = Some col"
  by (induction columns) (auto simp: image_iff)

lemma column_cards_map:
  "(\<And>col. column_id (f col) = column_id col) \<Longrightarrow>
   column_cards (map f columns) k =
   map_option (\<lambda>col. cards (f col)) (find (\<lambda>col. column_id col = k) columns)"
  by (induction columns) (auto simp: column_cards_def)

lemma filter_card_remove1:
  "distinct (map card_id cs) \<Longrightarrow> c \<in> set cs \<Longrightarrow>
   filter (\<lambda>x. card_id x \<noteq> card_id c) cs = remove1 c cs"
  by (induction cs) (auto simp: image_iff delete_cards_absent)

lemma cards_distinct:
  "distinct (cardIds columns) \<Longrightarrow> col \<in> set columns \<Longrightarrow> distinct (map card_id (cards col))"
  by (induction columns) (auto simp: cardIds_def)

text \<open>
  Claim C9, as the code has it. On a board with unique column ids and unique card
  ids, dropping a card \<open>c\<close> of column \<open>src\<close> onto the droppable area of column \<open>tgt\<close>
  (whose id is not also the id of \<open>c\<close>): when \<open>tgt\<close> is another column, \<open>c\<close> is
  removed from \<open>src\<close> and is the last card of \<open>tgt\<close>, and the other columns keep
  their cards; when \<open>tgt\<close> is the card's own column, the board stays as it is.
\<close>

theorem C9_drop_on_column:
  assumes "distinct (map column_id columns)" and "distinct (cardIds columns)"
    and "src \<in> set columns" and "c \<in> set (cards src)" and "tgt \<in> set columns"
    and "card_id c \<noteq> column_id tgt"
  shows "(column_id tgt = column_id src \<longrightarrow>
            kanban_handleDragEnd columns (card_id c) (Some (column_id tgt)) = columns) \<and>
         (column_id tgt \<noteq> column_id src \<longrightarrow>
            column_cards (kanban_handleDragEnd columns (card_id c) (Some (column_id tgt)))
              (column_id src) = Some (remove1 c (cards src)) \<and>
            c \<notin> set (remove1 c (cards src)) \<and>
            column_cards (kanban_handleDragEnd columns (card_id c) (Some (column_id tgt)))
              (column_id tgt) = Some (cards tgt @ [c]) \<and>
            (\<forall>k. k \<noteq> column_id src \<and> k \<noteq> column_id tgt \<longrightarrow>
               column_cards (kanban_handleDragEnd columns (card_id c) (Some (column_id tgt))) k =
               column_cards columns k))"
proof -
  from find_source_unique [OF assms(2,3,4)] obtain i where
    src: "find_source columns (card_id c) = Some (src, i, c)" by blast
  have tgt: "find (\<lambda>col. column_id col = column_id tgt) columns = Some tgt"
    using assms(1,5) by (rule find_column_unique)
  have srcf: "find (\<lambda>col. column_id col = column_id src) columns = Some src"
    using assms(1,3) by (rule find_column_unique)
  have dc: "distinct (map card_id (cards src))"
    using assms(2,3) by (rule cards_distinct)
  let ?f = "\<lambda>col. if column_id col = column_id src
                  then col\<lparr>cards := filter (\<lambda>x. card_id x \<noteq> card_id c) (cards col)\<rparr>
                  else if column_id col = column_id tgt
                  then col\<lparr>cards := cards col @ [c]\<rparr>
                  else col"
  have same: "kanban_handleDragEnd columns (card_id c) (Some (column_id tgt)) = columns"
    if "column_id tgt = column_id src"
    using that assms(6) by (simp add: kanban_handleDragEnd_def src srcf)
  have moved: "kanban_handleDragEnd columns (card_id c) (Some (column_id tgt)) = map ?f columns"
    if "column_id tgt \<noteq> column_id src"
    using that assms(6) by (simp add: kanban_handleDragEnd_def src tgt)
  have cc: "column_cards (map ?f columns) k =
            map_option (\<lambda>col. cards (?f col)) (find (\<lambda>col. column_id col = k) columns)" for k
    by (rule column_cards_map) simp
  have rm: "filter (\<lambda>x. card_id x \<noteq> card_id c) (cards src) = remove1 c (cards src)"
    using dc assms(4) by (rule filter_card_remove1)
  have gone: "c \<notin> set (remove1 c (cards src))"
    using dc by (simp add: distinct_map)
  have other: "column_cards (map ?f columns) k = column_cards columns k"
    if "k \<noteq> column_id src" "k \<noteq> column_id tgt" for k
  proof (cases "find (\<lambda>col. column_id col = k) columns")
    case None
    then show ?thesis unfolding cc by (simp add: column_cards_def)
  next
    case (Some col)
    then have "column_id col = k" by (auto dest: find_Some_iff [THEN iffD1])
    with Some that show ?thesis unfolding cc by (simp add: column_cards_def)
  qed
  show ?thesis
  proof (intro conjI impI allI)
    assume "column_id tgt = column_id src"
    then show "kanban_handleDragEnd columns (card_id c) (Some (column_id tgt)) = columns"
      by (rule same)
  next
    assume ne: "column_id tgt \<noteq> column_id src"
    show "column_cards (kanban_handleDragEnd columns (card_id c) (Some (column_id tgt)))
            (column_id src) = Some (remove1 c (cards src))"
      by (simp add: moved [OF ne] cc srcf rm)
    show "c \<notin> set (remove1 c (cards src))" by (rule gone)
    show "column_cards (kanban_handleDragEnd columns (card_id c) (Some (column_id tgt)))
            (column_id tgt) = Some (cards tgt @ [c])"
      using ne by (simp add: moved [OF ne] cc tgt)
    fix k
    assume "k \<noteq> column_id src \<and> k \<noteq> column_id tgt"
    then show "column_cards (kanban_handleDragEnd columns (card_id c) (Some (column_id tgt))) k =
               column_cards columns k"
      by (simp add: moved [OF ne] other)
  qed
qed

theorem C9_drop_on_column_witness:
  "column_cards
     (kanban_handleDragEnd
        [\<lparr>column_id = ''todo'', column_title = ''Todo'',
            cards = [\<lparr>card_id = ''c1'', card_title = ''One''\<rparr>,
                     \<lparr>card_id = ''c2'', card_title = ''Two''\<rparr>]\<rparr>,
         \<lparr>column_id = ''done'', column_title = ''Done'',
            cards = [\<lparr>card_id = ''c3'', card_title = ''Three''\<rparr>]\<rparr>]
        ''c1'' (Some ''done'')) ''done'' =
   Some [\<lparr>card_id = ''c3'', card_title = ''Three''\<rparr>, \<lparr>card_id = ''c1'', card_title = ''One''\<rparr>] \<and>
   kanban_handleDragEnd
        [\<lparr>column_id = ''todo'', column_title = ''Todo'',
            cards = [\<lparr>card_id = ''c1'', card_title = ''One''\<rparr>,
                     \<lparr>card_id = ''c2'', card_title = ''Two''\<rparr>]\<rparr>,
         \<lparr>column_id = ''done'', column_title = ''Done'',
            cards = [\<lparr>card_id = ''c3'', card_title = ''Three''\<rparr>]\<rparr>]
        ''c1'' (Some ''todo'') =
        [\<lparr>column_id = ''todo'', column_title = ''Todo'',
            cards = [\<lparr>card_id = ''c1'', card_title = ''One''\<rparr>,
                     \<lparr>card_id = ''c2'', card_title = ''Two''\<rparr>]\<rparr>,
         \<lparr>column_id = ''done'', column_title = ''Done'',
            cards = [\<lparr>card_id = ''c3'', card_title = ''Three''\<rparr>]\<rparr>]"
  using C9_drop_on_column
    [where columns = "[\<lparr>column_id = ''todo'', column_title = ''Todo'',
            cards = [\<lparr>card_id = ''c1'', card_title = ''One''\<rparr>,
                     \<lparr>card_id = ''c2'', card_title = ''Two''\<rparr>]\<rparr>,
         \<lparr>column_id = ''done'', column_title = ''Done'',
            cards = [\<lparr>card_id = ''c3'', card_title = ''Three''\<rparr>]\<rparr>]"
       and src = "\<lparr>column_id = ''todo'', column_title = ''Todo'',
            cards = [\<lparr>card_id = ''c1'', card_title = ''One''\<rparr>,
                     \<lparr>card_id = ''c2'', card_title = ''Two''\<rparr>]\<rparr>"
       and c = "\<lparr>card_id = ''c1'', card_title = ''One''\<rparr>"
       and tgt = "\<lparr>column_id = ''done'', column_title = ''Done'',
            cards = [\<lparr>card_id = ''c3'', card_title = ''Three''\<rparr>]\<rparr>"]
    C9_drop_on_column
    [where columns = "[\<lparr>column_id = ''todo'', column_title = ''Todo'',
            cards = [\<lparr>card_id = ''c1'', card_title = ''One''\<rparr>,
                     \<lparr>card_id = ''c2'', card_title = ''Two''\<rparr>]\<rparr>,
         \<lparr>column_id = ''done'', column_title = ''Done'',
            cards = [\<lparr>card_id = ''c3'', card_title = ''Three''\<rparr>]\<rparr>]"
       and src = "\<lparr>column_id = ''todo'', column_title = ''Todo'',
            cards = [\<lparr>card_id = ''c1'', card_title = ''One''\<rparr>,
                     \<lparr>card_id = ''c2'', card_title = ''Two''\<rparr>]\<rparr>"
       and c = "\<lparr>card_id = ''c1'', card_title = ''One''\<rparr>"
       and tgt = "\<lparr>column_id = ''todo'', column_title = ''Todo'',
            cards = [\<lparr>card_id = ''c1'', card_title = ''One''\<rparr>,
                     \<lparr>card_id = ''c2'', card_title = ''Two''\<rparr>]\<rparr>"]
  by (simp add: cardIds_def)

text \<open>
  Claim C9 as stated fails when the drop column is the card's own column: the card
  dropped on \<open>todo\<close> stays the first card of \<open>todo\<close> and is not its last card.
\<close>

theorem C9_same_column_counterexample:
  "map_option last
     (column_cards
        (kanban_handleDragEnd
           [\<lparr>column_id = ''todo'', column_title = ''Todo'',
               cards = [\<lparr>card_id = ''c1'', card_title = ''One''\<rparr>,
                        \<lparr>card_id = ''c2'', card_title = ''Two''\<rparr>]\<rparr>]
           ''c1'' (Some ''todo'')) ''todo'') \<noteq>
   Some \<lparr>card_id = ''c1'', card_title = ''One''\<rparr>"
  by (simp add: kanban_handleDragEnd_def column_cards_def)

section \<open>Tree view: the ids of a forest under the operations\<close>

lemma updateNode_keeps_ids:
  "(\<And>m. node_id (updater m) = node_id m \<and> children (updater m) = children m) \<Longrightarrow>
   nodeIds (updateNode f ident updater) = nodeIds f"
  by (induction f rule: nodeIds.induct) (auto split: option.splits)

lemma updateNode_ids_mset:
  "distinct (nodeIds f) \<Longrightarrow> p \<in> set (allNodes f) \<Longrightarrow> node_id (updater p) = node_id p \<Longrightarrow>
   mset (nodeIds (updateNode f (node_id p) updater)) + mset (nodeIds [p]) =
   mset (nodeIds f) + mset (nodeIds [updater p])"
proof (induction f rule: nodeIds.induct)
  case 1
  then show ?case by simp
next
  case (2 n ns)
  let ?pid = "node_id p"
  show ?case
  proof (cases "node_id n = ?pid")
    case True
    with "2.prems" have np: "n = p"
      by (auto simp: nodeIds_allNodes split: option.splits)
    from "2.prems"(1) np have "?pid \<notin> set (nodeIds ns)" by auto
    then have "updateNode ns ?pid updater = ns" by (rule updateNode_absent)
    with np "2.prems"(3) show ?thesis by (simp split: option.splits)
  next
    case False
    show ?thesis
    proof (cases "children n")
      case None
      with False "2.prems" "2.IH"(2) show ?thesis by auto
    next
      case (Some cs)
      show ?thesis
      proof (cases "p \<in> set (allNodes cs)")
        case True
        with Some "2.prems"(1) have "?pid \<notin> set (nodeIds ns)"
          by (auto simp: nodeIds_allNodes)
        then have "updateNode ns ?pid updater = ns" by (rule updateNode_absent)
        with True Some False "2.prems" "2.IH"(1) [OF Some] show ?thesis
          by simp
      next
        case nin: False
        with Some False "2.prems" have tl: "p \<in> set (allNodes ns)" by auto
        with Some "2.prems"(1) have "?pid \<notin> set (nodeIds cs)"
          by (auto simp: nodeIds_allNodes)
        then have "updateNode cs ?pid updater = cs" by (rule updateNode_absent)
        with tl Some False "2.prems" "2.IH"(2) show ?thesis
          by simp
      qed
    qed
  qed
qed

lemma deleteNode_ids_mset:
  "distinct (nodeIds f) \<Longrightarrow> p \<in> set (allNodes f) \<Longrightarrow>
   mset (nodeIds (deleteNode f (node_id p))) + mset (nodeIds [p]) = mset (nodeIds f)"
proof (induction f rule: nodeIds.induct)
  case 1
  then show ?case by simp
next
  case (2 n ns)
  let ?pid = "node_id p"
  show ?case
  proof (cases "node_id n = ?pid")
    case True
    with "2.prems" have np: "n = p"
      by (auto simp: nodeIds_allNodes split: option.splits)
    from "2.prems"(1) np have "?pid \<notin> set (nodeIds ns)" by auto
    then have "deleteNode ns ?pid = ns" by (rule deleteNode_absent)
    with np show ?thesis by (simp split: option.splits)
  next
    case False
    show ?thesis
    proof (cases "children n")
      case None
      with False "2.prems" "2.IH"(2) show ?thesis by auto
    next
      case (Some cs)
      show ?thesis
      proof (cases "p \<in> set (allNodes cs)")
        case True
        with Some "2.prems"(1) have "?pid \<notin> set (nodeIds ns)"
          by (auto simp: nodeIds_allNodes)
        then have "deleteNode ns ?pid = ns" by (rule deleteNode_absent)
        with True Some False "2.prems" "2.IH"(1) [OF Some] show ?thesis
          by simp
      next
        case nin: False
        with Some False "2.prems" have tl: "p \<in> set (allNodes ns)" by auto
        with Some "2.prems"(1) have "?pid \<notin> set (nodeIds cs)"
          by (auto simp: nodeIds_allNodes)
        then have "deleteNode cs ?pid = cs" by (rule deleteNode_absent)
        with tl Some False "2.prems" "2.IH"(2) show ?thesis
          by simp
      qed
    qed
  qed
qed

lemma updateNode_append_child:
  "updateNode f ident
     (\<lambda>node. with_isExpanded (Some True)
        (with_children (Some (or_empty (children node) @ [newNode])) node)) =
   addChildNode f ident newNode"
  by (induction f rule: nodeIds.induct) (auto split: option.splits)

lemma filter_index_neq_enumerate:
  "map snd (filter (\<lambda>(j, _). j \<noteq> k + i) (enumerate k xs)) = take i xs @ drop (Suc i) xs"
proof (induction xs arbitrary: i k)
  case Nil
  then show ?case by simp
next
  case (Cons x xs)
  show ?case
  proof (cases i)
    case 0
    have "filter (\<lambda>(j, _). j \<noteq> k) (enumerate (Suc k) xs) = enumerate (Suc k) xs"
      by (rule filter_True) (auto simp: in_set_enumerate_eq)
    with 0 show ?thesis by simp
  next
    case (Suc i')
    with Cons.IH [of "Suc k" i'] show ?thesis by simp
  qed
qed

lemma filter_index_neq_eq: "filter_index_neq i xs = take i xs @ drop (Suc i) xs"
  using filter_index_neq_enumerate [of 0 i xs] by (simp add: filter_index_neq_def)

lemma findNode_loop_root:
  "findNode_loop nodes root k rest ident = Some r \<Longrightarrow> found_root r \<Longrightarrow>
   root \<and> (\<exists>j<length rest. found_index r = k + j \<and> rest ! j = found_node r)"
proof (induction rest arbitrary: nodes root k rule: nodeIds.induct)
  case 1
  then show ?case by simp
next
  case (2 n ns)
  show ?case
  proof (cases "node_id n = ident")
    case True
    with "2.prems" show ?thesis by auto
  next
    case False
    have tl: "root \<and> (\<exists>j<length (n # ns). found_index r = k + j \<and> (n # ns) ! j = found_node r)"
      if "findNode_loop nodes root (Suc k) ns ident = Some r"
    proof -
      from "2.IH"(2) [OF that "2.prems"(2)] obtain j where
        "root" "j < length ns" "found_index r = Suc k + j" "ns ! j = found_node r"
        by blast
      then show ?thesis by (intro conjI exI [of _ "Suc j"]) simp_all
    qed
    show ?thesis
    proof (cases "children n")
      case None
      with False "2.prems"(1) tl show ?thesis by simp
    next
      case (Some cs)
      show ?thesis
      proof (cases "findNode_loop cs False 0 cs ident")
        case None
        with Some False "2.prems"(1) tl show ?thesis by simp
      next
        case inner: (Some q)
        with Some False "2.prems"(1) have "findNode_loop cs False 0 cs ident = Some r" by simp
        from "2.IH"(1) [OF Some this "2.prems"(2)] show ?thesis by simp
      qed
    qed
  qed
qed

lemma findNode_root:
  "findNode f ident = Some r \<Longrightarrow> found_root r \<Longrightarrow>
   found_index r < length f \<and> f ! found_index r = found_node r"
  using findNode_loop_root [of f True 0 f ident r] by (auto simp: findNode_def)

lemma nodeIds_split:
  assumes "i < length f"
  shows "nodeIds f = nodeIds (take i f) @ nodeIds [f ! i] @ nodeIds (drop (Suc i) f)"
proof -
  have "f = take i f @ [f ! i] @ drop (Suc i) f"
    using id_take_nth_drop [OF assms] by simp
  then have "nodeIds f = nodeIds (take i f @ [f ! i] @ drop (Suc i) f)"
    by (rule arg_cong)
  also have "\<dots> = nodeIds (take i f) @ nodeIds [f ! i] @ nodeIds (drop (Suc i) f)"
    by (simp only: nodeIds_append)
  finally show ?thesis .
qed

lemma addChildNode_ids_mset:
  assumes "distinct (nodeIds f)" and "parentId \<in> set (nodeIds f)"
  shows "mset (nodeIds (addChildNode f parentId newNode)) =
         mset (nodeIds f) + mset (nodeIds [newNode])"
proof -
  from assms(2) obtain p where p: "p \<in> set (allNodes f)" "node_id p = parentId"
    by (auto simp: nodeIds_allNodes)
  let ?u = "\<lambda>node. with_isExpanded (Some True)
              (with_children (Some (or_empty (children node) @ [newNode])) node)"
  have "mset (nodeIds (updateNode f (node_id p) ?u)) + mset (nodeIds [p]) =
        mset (nodeIds f) + mset (nodeIds [?u p])"
    using assms(1) p(1) by (rule updateNode_ids_mset) simp
  moreover have "mset (nodeIds [?u p]) = mset (nodeIds [p]) + mset (nodeIds [newNode])"
    by (simp add: or_empty_def split: option.splits)
  ultimately show ?thesis
    by (simp add: updateNode_append_child p(2))
qed

text \<open>
  Moving a node found at the top level keeps the ids of the forest: the node is
  filtered out of the top-level array by its index and appended to the children of
  the drop target, which is outside the moved subtree.
\<close>

lemma move_root_keeps_ids:
  assumes d: "distinct (nodeIds f)" and r: "findNode f a = Some r" and root: "found_root r"
  shows "mset (nodeIds (tree_handleDragEnd f a over)) = mset (nodeIds f)"
proof (cases over)
  case None
  then show ?thesis by (simp add: tree_handleDragEnd_def)
next
  case (Some b)
  let ?nA = "found_node r"
  let ?i = "found_index r"
  from findNode_root [OF r root] have i: "?i < length f" "f ! ?i = ?nA" by simp_all
  let ?updated = "take ?i f @ drop (Suc ?i) f"
  have ids: "nodeIds f = nodeIds (take ?i f) @ nodeIds [?nA] @ nodeIds (drop (Suc ?i) f)"
    using nodeIds_split [OF i(1)] by (simp only: i(2))
  have ids_set: "set (nodeIds f) = set (nodeIds ?updated) \<union> set (nodeIds [?nA])"
    by (subst ids) (auto simp del: nodeIds.simps)
  have ids_mset: "mset (nodeIds f) = mset (nodeIds ?updated) + mset (nodeIds [?nA])"
    by (subst ids) (simp del: nodeIds.simps)
  have ids_distinct: "distinct (nodeIds f) \<Longrightarrow> distinct (nodeIds ?updated)"
    by (subst (asm) ids) (auto simp del: nodeIds.simps)
  have a: "node_id ?nA = a"
    using r findNode_loop_id [of f True 0 f a r] by (simp add: findNode_def)
  show ?thesis
  proof (cases "a = b \<or> findNode f b = None \<or> (isArray (children ?nA) \<and> isDescendant b ?nA)")
    case True
    with Some r show ?thesis
      by (auto simp: tree_handleDragEnd_def Let_def split: option.splits)
  next
    case False
    then obtain rb where rb: "findNode f b = Some rb" by auto
    from False have ab: "a \<noteq> b" and guard: "\<not> (isArray (children ?nA) \<and> isDescendant b ?nA)"
      by auto
    have outside: "b \<notin> set (nodeIds [?nA])"
    proof (cases "children ?nA")
      case None
      with a ab show ?thesis by auto
    next
      case (Some cs)
      with guard have "\<not> isDescendant b ?nA" by (simp add: isArray_def)
      then show ?thesis by (simp add: isDescendant_iff)
    qed
    from rb have "b \<in> set (nodeIds f)"
      using findNode_None_iff [of f b] by auto
    with outside ids_set have inside: "b \<in> set (nodeIds ?updated)"
      by blast
    from d have du: "distinct (nodeIds ?updated)"
      by (rule ids_distinct)
    have res: "tree_handleDragEnd f a over = addChildNode ?updated b ?nA"
      using Some ab r rb guard root
      by (simp add: tree_handleDragEnd_def Let_def filter_index_neq_eq updateNode_append_child
          isArray_def split: option.splits)
    have "mset (nodeIds (addChildNode ?updated b ?nA)) =
          mset (nodeIds ?updated) + mset (nodeIds [?nA])"
      using du inside by (rule addChildNode_ids_mset)
    also have "\<dots> = mset (nodeIds f)"
      by (rule ids_mset [symmetric])
    finally show ?thesis by (simp only: res)
  qed
qed

lemma distinct_from_mset_sum:
  assumes "mset xs + mset gone = mset ys + mset new" and "distinct ys" and "distinct new"
    and "set new \<inter> set ys \<subseteq> set gone"
  shows "distinct xs"
  unfolding distinct_count_atmost_1
proof
  fix a
  have eq: "count (mset xs) a + count (mset gone) a = count (mset ys) a + count (mset new) a"
    using arg_cong [OF assms(1), of "\<lambda>M. count M a"] by simp
  have ys: "count (mset ys) a = (if a \<in> set ys then 1 else 0)"
    using assms(2) by (simp add: distinct_count_atmost_1)
  have new: "count (mset new) a = (if a \<in> set new then 1 else 0)"
    using assms(3) by (simp add: distinct_count_atmost_1)
  have le: "count (mset xs) a \<le> 1"
  proof (cases "a \<in> set new \<and> a \<in> set ys")
    case True
    with assms(4) have "a \<in> set gone" by auto
    then have "1 \<le> count (mset gone) a" by (simp add: Suc_le_eq)
    moreover have "count (mset ys) a \<le> 1" "count (mset new) a \<le> 1"
      using ys new by simp_all
    ultimately show ?thesis using eq by linarith
  next
    case False
    then have "count (mset ys) a + count (mset new) a \<le> 1"
      using ys new by auto
    then show ?thesis using eq by linarith
  qed
  show "count (mset xs) a = (if a \<in> set xs then 1 else 0)"
  proof (cases "a \<in> set xs")
    case True
    then have "0 < count (mset xs) a" by simp
    then have "count (mset xs) a = 1" using le by linarith
    with True show ?thesis by simp
  next
    case False
    then show ?thesis by (simp add: count_eq_zero_iff)
  qed
qed

text \<open>
  Every operation of the tree other than the move of a nested node keeps the ids of
  a forest unique, given fresh ids for the nodes it creates.
\<close>

lemma tree_operations_keep_unique:
  assumes d: "distinct (nodeIds f)"
  shows "distinct (nodeIds (handleToggle f i))"
    and "distinct (nodeIds (handleEdit f i nm))"
    and "distinct (nodeIds (loadChildren_begin f i))"
    and "distinct (nodeIds (loadChildren_rejected f i))"
    and "distinct (nodeIds (handleDelete f i))"
    and "newId \<notin> set (nodeIds f) \<Longrightarrow> distinct (nodeIds (handleAddChild f i nm newId))"
    and "distinct (nodeIds fetched) \<Longrightarrow> set (nodeIds fetched) \<inter> set (nodeIds f) = {} \<Longrightarrow>
         distinct (nodeIds (loadChildren_resolved f i fetched))"
    and "findNode f i = Some r \<Longrightarrow> found_root r \<Longrightarrow>
         distinct (nodeIds (tree_handleDragEnd f i over))"
proof -
  show "distinct (nodeIds (handleToggle f i))"
    using d by (simp add: handleToggle_def updateNode_keeps_ids)
  show "distinct (nodeIds (handleEdit f i nm))"
    using d by (simp add: handleEdit_def updateNode_keeps_ids)
  show "distinct (nodeIds (loadChildren_begin f i))"
    using d by (simp add: loadChildren_begin_def updateNode_keeps_ids)
  show "distinct (nodeIds (loadChildren_rejected f i))"
    using d by (simp add: loadChildren_rejected_def updateNode_keeps_ids)
  show "distinct (nodeIds (handleDelete f i))"
  proof (cases "i \<in> set (nodeIds f)")
    case False
    with d show ?thesis by (simp add: handleDelete_def deleteNode_absent)
  next
    case True
    then obtain p where p: "p \<in> set (allNodes f)" "node_id p = i"
      by (auto simp: nodeIds_allNodes)
    have "mset (nodeIds (deleteNode f i)) + mset (nodeIds [p]) = mset (nodeIds f) + mset []"
      using deleteNode_ids_mset [OF d p(1)] p(2) by simp
    then show ?thesis
      unfolding handleDelete_def using d by (rule distinct_from_mset_sum) simp_all
  qed
  show "distinct (nodeIds (handleAddChild f i nm newId))" if fresh: "newId \<notin> set (nodeIds f)"
  proof (cases "i \<in> set (nodeIds f)")
    case False
    with d show ?thesis by (simp add: handleAddChild_def addChildNode_absent)
  next
    case True
    have "mset (nodeIds (handleAddChild f i nm newId)) + mset [] = mset (nodeIds f) + mset [newId]"
      using addChildNode_ids_mset [OF d True] by (simp add: handleAddChild_def)
    then show ?thesis
      using d by (rule distinct_from_mset_sum) (use fresh in simp_all)
  qed
  show "distinct (nodeIds (loadChildren_resolved f i fetched))"
    if df: "distinct (nodeIds fetched)" and disj: "set (nodeIds fetched) \<inter> set (nodeIds f) = {}"
  proof (cases "i \<in> set (nodeIds f)")
    case False
    with d show ?thesis by (simp add: loadChildren_resolved_def updateNode_absent)
  next
    case True
    then obtain p where p: "p \<in> set (allNodes f)" "node_id p = i"
      by (auto simp: nodeIds_allNodes)
    let ?u = "\<lambda>node. with_isExpanded (Some True) (with_hasLoaded (Some True)
                (with_isLoading (Some False) (with_children (Some fetched) node)))"
    have "mset (nodeIds (updateNode f (node_id p) ?u)) + mset (nodeIds [p]) =
          mset (nodeIds f) + mset (nodeIds [?u p])"
      using d p(1) by (rule updateNode_ids_mset) simp
    then have "mset (nodeIds (loadChildren_resolved f i fetched)) + mset (nodeIds [p]) =
          mset (nodeIds f) + mset (i # nodeIds fetched)"
      by (simp add: loadChildren_resolved_def p(2))
    then show ?thesis
      using d
    proof (rule distinct_from_mset_sum)
      show "distinct (i # nodeIds fetched)"
        using df disj True by auto
      show "set (i # nodeIds fetched) \<inter> set (nodeIds f) \<subseteq> set (nodeIds [p])"
        using disj p(2) by auto
    qed
  qed
  show "distinct (nodeIds (tree_handleDragEnd f i over))"
    if "findNode f i = Some r" and "found_root r"
    using mset_eq_imp_distinct_iff [OF move_root_keeps_ids [OF d that]] d by simp
qed

text \<open>
  Deleting a node of a forest with unique ids removes as many nodes as its subtree
  has, and moving a node found at the top level keeps the number of nodes.
\<close>

lemma tree_operations_count:
  assumes d: "distinct (nodeIds f)"
  shows "p \<in> set (allNodes f) \<Longrightarrow>
         length (nodeIds (handleDelete f (node_id p))) + length (nodeIds [p]) = length (nodeIds f)"
    and "findNode f i = Some r \<Longrightarrow> found_root r \<Longrightarrow>
         length (nodeIds (tree_handleDragEnd f i over)) = length (nodeIds f)"
proof -
  show "length (nodeIds (handleDelete f (node_id p))) + length (nodeIds [p]) = length (nodeIds f)"
    if "p \<in> set (allNodes f)"
    using arg_cong [OF deleteNode_ids_mset [OF d that], of size]
    by (simp add: handleDelete_def del: nodeIds.simps)
  show "length (nodeIds (tree_handleDragEnd f i over)) = length (nodeIds f)"
    if "findNode f i = Some r" and "found_root r"
    using arg_cong [OF move_root_keeps_ids [OF d that], of size] by simp
qed

section \<open>Kanban board: the card ids of a board under the operations\<close>

lemma cardIds_Cons: "cardIds (col # rest) = map card_id (cards col) @ cardIds rest"
  by (simp add: cardIds_def)

lemma edit_keeps_card_ids:
  "map card_id (map (\<lambda>c. if card_id c = x then c\<lparr>card_title := t\<rparr> else c) cs) = map card_id cs"
  by (induction cs) auto

lemma cardIds_edit: "cardIds (handleEditCard columns x t) = cardIds columns"
  by (induction columns) (simp_all add: handleEditCard_def cardIds_def edit_keeps_card_ids)

lemma cardIds_delete:
  "cardIds (handleDeleteCard columns x) = filter (\<lambda>i. i \<noteq> x) (cardIds columns)"
  by (induction columns) (simp_all add: handleDeleteCard_def cardIds_def filter_map comp_def)

lemma length_filter_neq:
  "distinct xs \<Longrightarrow> x \<in> set xs \<Longrightarrow> length (filter (\<lambda>i. i \<noteq> x) xs) + 1 = length xs"
proof (induction xs)
  case Nil
  then show ?case by simp
next
  case (Cons y ys)
  show ?case
  proof (cases "y = x")
    case True
    with Cons.prems have "filter (\<lambda>i. i \<noteq> x) ys = ys"
      by (auto simp: filter_id_conv)
    with True show ?thesis by simp
  next
    case False
    with Cons show ?thesis by simp
  qed
qed

lemma cardIds_update_one:
  "distinct (map column_id columns) \<Longrightarrow> col0 \<in> set columns \<Longrightarrow>
   mset (cardIds (map (\<lambda>col. if column_id col = column_id col0 then g col else col) columns)) +
     mset (map card_id (cards col0)) =
   mset (cardIds columns) + mset (map card_id (cards (g col0)))"
proof (induction columns)
  case Nil
  then show ?case by simp
next
  case (Cons col rest)
  show ?case
  proof (cases "col = col0")
    case True
    with Cons.prems(1) have "column_id col0 \<notin> column_id ` set rest" by simp
    then have "map (\<lambda>col. if column_id col = column_id col0 then g col else col) rest = rest"
      by (rule map_other_columns)
    with True show ?thesis by (simp add: cardIds_Cons)
  next
    case False
    with Cons.prems have "col0 \<in> set rest" "column_id col \<noteq> column_id col0"
      by (auto simp: image_iff)
    with Cons.prems(1) Cons.IH show ?thesis by (simp add: cardIds_Cons)
  qed
qed

lemma cardIds_update_two:
  assumes d: "distinct (map column_id columns)"
    and src: "src \<in> set columns" and tgt: "tgt \<in> set columns"
    and ne: "column_id src \<noteq> column_id tgt"
    and g1: "\<And>col. column_id (g1 col) = column_id col"
  shows "mset (cardIds (map (\<lambda>col. if column_id col = column_id src then g1 col
                                   else if column_id col = column_id tgt then g2 col
                                   else col) columns)) +
           mset (map card_id (cards src)) + mset (map card_id (cards tgt)) =
         mset (cardIds columns) + mset (map card_id (cards (g1 src))) +
           mset (map card_id (cards (g2 tgt)))"
proof -
  let ?f1 = "\<lambda>col. if column_id col = column_id src then g1 col else col"
  let ?f2 = "\<lambda>col. if column_id col = column_id tgt then g2 col else col"
  have comp: "map (\<lambda>col. if column_id col = column_id src then g1 col
                          else if column_id col = column_id tgt then g2 col
                          else col) columns = map ?f2 (map ?f1 columns)"
    using ne by (simp add: g1)
  have ids: "map column_id (map ?f1 columns) = map column_id columns"
    by (simp add: g1)
  have tgt': "tgt \<in> set (map ?f1 columns)"
    using tgt ne by (force simp: image_iff)
  have "mset (cardIds (map ?f2 (map ?f1 columns))) + mset (map card_id (cards tgt)) =
        mset (cardIds (map ?f1 columns)) + mset (map card_id (cards (g2 tgt)))"
    using d tgt' by (intro cardIds_update_one) (simp_all only: ids)
  moreover have "mset (cardIds (map ?f1 columns)) + mset (map card_id (cards src)) =
        mset (cardIds columns) + mset (map card_id (cards (g1 src)))"
    using d src by (rule cardIds_update_one)
  ultimately show ?thesis
    unfolding comp by (simp add: ac_simps)
qed

lemma find_source_Some:
  "find_source columns a = Some (src, i, c) \<Longrightarrow>
   src \<in> set columns \<and> i < length (cards src) \<and> cards src ! i = c \<and> card_id c = a"
  by (induction columns) (auto split: option.splits dest: findIndex_Some)

lemma find_target_Some:
  "find_target columns b = Some (tid, j) \<Longrightarrow> \<exists>tgt\<in>set columns. column_id tgt = tid"
  by (induction columns) (auto split: option.splits)

lemma mset_splice_insert: "mset (splice_insert j c xs) = add_mset c (mset xs)"
proof -
  have "mset (take j xs) + mset (drop j xs) = mset xs"
    by (metis append_take_drop_id mset_append)
  then show ?thesis by (simp add: splice_insert_def)
qed

lemma mset_splice_remove:
  "i < length xs \<Longrightarrow> add_mset (xs ! i) (mset (splice_remove i xs)) = mset xs"
proof -
  assume "i < length xs"
  then have "mset xs = mset (take i xs @ xs ! i # drop (Suc i) xs)"
    by (simp only: id_take_nth_drop [symmetric])
  then show ?thesis by (simp add: splice_remove_def)
qed

lemma mset_filter_card:
  "distinct (map card_id cs) \<Longrightarrow> c \<in> set cs \<Longrightarrow>
   add_mset c (mset (filter (\<lambda>x. card_id x \<noteq> card_id c) cs)) = mset cs"
  by (simp add: filter_card_remove1)

lemma move_between_columns:
  assumes d: "distinct (map column_id columns)"
    and src: "src \<in> set columns" and tgt: "tgt \<in> set columns"
    and ne: "column_id src \<noteq> column_id tgt"
    and c: "c \<in> set (cards src)" and dc: "distinct (map card_id (cards src))"
    and g2: "mset (cards (g2 tgt)) = add_mset c (mset (cards tgt))"
  shows "mset (cardIds (map (\<lambda>col.
           if column_id col = column_id src
           then col\<lparr>cards := filter (\<lambda>x. card_id x \<noteq> card_id c) (cards col)\<rparr>
           else if column_id col = column_id tgt then g2 col
           else col) columns)) = mset (cardIds columns)"
    (is "?M = _")
proof -
  let ?g1 = "\<lambda>col. col\<lparr>cards := filter (\<lambda>x. card_id x \<noteq> card_id c) (cards col)\<rparr>"
  have two: "?M + mset (map card_id (cards src)) + mset (map card_id (cards tgt)) =
        mset (cardIds columns) + mset (map card_id (cards (?g1 src))) +
        mset (map card_id (cards (g2 tgt)))"
    using d src tgt ne by (rule cardIds_update_two) simp
  have "image_mset card_id (add_mset c (mset (filter (\<lambda>x. card_id x \<noteq> card_id c) (cards src)))) =
        image_mset card_id (mset (cards src))"
    using mset_filter_card [OF dc c] by simp
  then have s: "add_mset (card_id c) (mset (map card_id (cards (?g1 src)))) =
                mset (map card_id (cards src))"
    by simp
  have t: "mset (map card_id (cards (g2 tgt))) = add_mset (card_id c) (mset (map card_id (cards tgt)))"
    using arg_cong [OF g2, of "image_mset card_id"] by simp
  have "?M + (mset (map card_id (cards src)) + mset (map card_id (cards tgt))) =
        mset (cardIds columns) + (mset (map card_id (cards src)) + mset (map card_id (cards tgt)))"
    using two unfolding t s [symmetric] by (simp add: ac_simps)
  then show ?thesis by simp
qed

lemma reorder_in_column:
  assumes d: "distinct (map column_id columns)" and src: "src \<in> set columns"
    and new: "mset newCards = mset (cards src)"
  shows "mset (cardIds (map (\<lambda>col. if column_id col = column_id src
                                   then col\<lparr>cards := newCards\<rparr> else col) columns)) =
         mset (cardIds columns)"
proof -
  have "mset (map card_id newCards) = mset (map card_id (cards src))"
    using arg_cong [OF new, of "image_mset card_id"] by simp
  with cardIds_update_one [OF d src, of "\<lambda>col. col\<lparr>cards := newCards\<rparr>"] show ?thesis
    by simp
qed

text \<open>
  On a board with unique column ids and unique card ids, a drag-end keeps the card
  ids of the board: no card is lost or doubled.
\<close>

lemma move_card_keeps_ids:
  assumes d: "distinct (map column_id columns)" and di: "distinct (cardIds columns)"
  shows "mset (cardIds (kanban_handleDragEnd columns a over)) = mset (cardIds columns)"
proof (cases "find_source columns a")
  case None
  then show ?thesis by (simp add: kanban_handleDragEnd_def split: option.splits)
next
  case (Some s)
  then obtain src i c where s: "find_source columns a = Some (src, i, c)"
    by (cases s) auto
  from find_source_Some [OF s] have src: "src \<in> set columns" and i: "i < length (cards src)"
    and ci: "cards src ! i = c" and a: "card_id c = a"
    by simp_all
  from i ci have c: "c \<in> set (cards src)" by auto
  have dc: "distinct (map card_id (cards src))"
    using di src by (rule cards_distinct)
  note s = s [folded a]
  have "mset (cardIds (kanban_handleDragEnd columns (card_id c) over)) = mset (cardIds columns)"
    (is ?moved)
  proof (cases over)
    case None
    then show ?moved by (simp add: kanban_handleDragEnd_def)
  next
    case over: (Some b)
    show ?moved
    proof (cases "find (\<lambda>col. column_id col = b) columns")
      case (Some tgt)
      then have tgt: "tgt \<in> set columns" "column_id tgt = b"
        by (auto simp: find_Some_iff)
      show ?moved
      proof (cases "card_id c = b \<or> column_id tgt = column_id src")
        case True
        with over s Some show ?moved by (auto simp: kanban_handleDragEnd_def)
      next
        case False
        then have ne: "column_id src \<noteq> column_id tgt" by auto
        have "mset (cardIds (map (\<lambda>col.
                 if column_id col = column_id src
                 then col\<lparr>cards := filter (\<lambda>x. card_id x \<noteq> card_id c) (cards col)\<rparr>
                 else if column_id col = column_id tgt then col\<lparr>cards := cards col @ [c]\<rparr>
                 else col) columns)) = mset (cardIds columns)"
          using d src tgt(1) ne c dc by (rule move_between_columns) simp
        with False over s Some show ?moved
          by (simp add: kanban_handleDragEnd_def)
      qed
    next
      case None
      show ?moved
      proof (cases "find_target columns b")
        case nt: None
        with over s None show ?moved by (simp add: kanban_handleDragEnd_def)
      next
        case (Some t)
        then obtain tid j where t: "find_target columns b = Some (tid, j)"
          by (cases t) auto
        from find_target_Some [OF t] obtain tgt where tgt: "tgt \<in> set columns" "column_id tgt = tid"
          by blast
        show ?moved
        proof (cases "card_id c = b \<or> tid = [] \<or> (column_id src = tid \<and> j = i)")
          case True
          with over s None t show ?moved by (auto simp: kanban_handleDragEnd_def)
        next
          case False
          show ?moved
          proof (cases "column_id src = tid")
            case same: True
            have "mset (splice_insert j c (splice_remove i (cards src))) = mset (cards src)"
              using mset_splice_remove [OF i] ci by (simp add: mset_splice_insert)
            with d src have "mset (cardIds (map (\<lambda>col. if column_id col = column_id src
                     then col\<lparr>cards := splice_insert j c (splice_remove i (cards src))\<rparr>
                     else col) columns)) = mset (cardIds columns)"
              by (rule reorder_in_column)
            with False same over s None t show ?moved
              by (simp add: kanban_handleDragEnd_def Let_def)
          next
            case diff: False
            with tgt have ne: "column_id src \<noteq> column_id tgt" by simp
            have "mset (cardIds (map (\<lambda>col.
                     if column_id col = column_id src
                     then col\<lparr>cards := filter (\<lambda>x. card_id x \<noteq> card_id c) (cards col)\<rparr>
                     else if column_id col = tid
                     then col\<lparr>cards := splice_insert j c (cards col)\<rparr>
                     else col) columns)) = mset (cardIds columns)"
              using move_between_columns [OF d src tgt(1) ne c dc,
                  of "\<lambda>col. col\<lparr>cards := splice_insert j c (cards col)\<rparr>"]
              unfolding tgt(2) by (simp add: mset_splice_insert)
            with False diff over s None t show ?moved
              by (simp add: kanban_handleDragEnd_def)
          qed
        qed
      qed
    qed
  qed
then show ?thesis by (simp only: a)
qed

text \<open>
  Every operation of the board keeps the card ids unique, given a fresh id for an
  added card; deleting a card of the board removes one card and a drag-end keeps
  the number of cards.
\<close>

lemma kanban_operations_keep_unique:
  assumes d: "distinct (map column_id columns)" and di: "distinct (cardIds columns)"
  shows "newId \<notin> set (cardIds columns) \<Longrightarrow>
         distinct (cardIds (handleAddCard columns k t newId))"
    and "distinct (cardIds (handleEditCard columns x t))"
    and "distinct (cardIds (handleDeleteCard columns x))"
    and "distinct (cardIds (kanban_handleDragEnd columns a over))"
proof -
  show "distinct (cardIds (handleAddCard columns k t newId))"
    if fresh: "newId \<notin> set (cardIds columns)"
  proof (cases "k \<in> column_id ` set columns")
    case False
    with di show ?thesis by (simp add: handleAddCard_def map_other_columns)
  next
    case True
    then obtain col0 where col0: "col0 \<in> set columns" "column_id col0 = k" by auto
    let ?g = "\<lambda>col. col\<lparr>cards := cards col @ [\<lparr>card_id = newId, card_title = t\<rparr>]\<rparr>"
    have "mset (cardIds (map (\<lambda>col. if column_id col = column_id col0 then ?g col else col)
             columns)) + mset (map card_id (cards col0)) =
          mset (cardIds columns) + mset (map card_id (cards (?g col0)))"
      using d col0(1) by (rule cardIds_update_one)
    then have "mset (cardIds (handleAddCard columns k t newId)) = mset (newId # cardIds columns)"
      by (simp add: handleAddCard_def col0(2))
    from mset_eq_imp_distinct_iff [OF this] di fresh show ?thesis by simp
  qed
  show "distinct (cardIds (handleEditCard columns x t))"
    using di by (simp add: cardIds_edit)
  show "distinct (cardIds (handleDeleteCard columns x))"
    using di by (simp add: cardIds_delete)
  show "distinct (cardIds (kanban_handleDragEnd columns a over))"
    using mset_eq_imp_distinct_iff [OF move_card_keeps_ids [OF d di]] di by simp
qed

lemma kanban_operations_count:
  assumes d: "distinct (map column_id columns)" and di: "distinct (cardIds columns)"
  shows "x \<in> set (cardIds columns) \<Longrightarrow>
         length (cardIds (handleDeleteCard columns x)) + 1 = length (cardIds columns)"
    and "length (cardIds (kanban_handleDragEnd columns a over)) = length (cardIds columns)"
proof -
  show "length (cardIds (handleDeleteCard columns x)) + 1 = length (cardIds columns)"
    if "x \<in> set (cardIds columns)"
    using length_filter_neq [OF di that] by (simp add: cardIds_delete)
  show "length (cardIds (kanban_handleDragEnd columns a over)) = length (cardIds columns)"
    using arg_cong [OF move_card_keeps_ids [OF d di], of size] by simp
qed


section \<open>Tree view: moving a nested node\<close>

text \<open>
  Two drags on the sample forest, both of which the view can produce. First the
  top-level node \<open>Documents\<close> (which has children) is dragged onto \<open>Projects\<close>: it
  is filtered out of the top-level array and appended under \<open>Projects\<close>, which is
  expanded.
\<close>

lemma move_root_result:
  "tree_handleDragEnd initialData ''documents'' (Some ''projects'') =
     [TreeNode ''projects'' ''Projects''
        (Some [TreeNode ''documents'' ''Documents''
                 (Some [TreeNode ''work'' ''Work'' None (Some False) None (Some False),
                        TreeNode ''personal'' ''Personal'' None (Some False) None (Some False)])
                 (Some True) None (Some True)])
        (Some True) None (Some False),
      TreeNode ''downloads'' ''Downloads'' None (Some False) None (Some False)]"
  by (simp add: tree_handleDragEnd_def initialData_def findNode_def isArray_def or_empty_def
      with_children_def with_isExpanded_def Let_def filter_index_neq_eq isDescendant.simps)

text \<open>
  Then \<open>Documents\<close>, now a nested node on screen under \<open>Projects\<close>, is dragged onto
  \<open>Downloads\<close>. It was found in the children array of \<open>Projects\<close>, at index 0. The
  removal step updates the node whose id is that of the first element of this
  array, which is \<open>Documents\<close> itself and not its parent \<open>Projects\<close>: the child at
  index 0 of \<open>Documents\<close> (\<open>Work\<close>) is dropped, \<open>Documents\<close> stays under \<open>Projects\<close>, and
  the dragged \<open>Documents\<close> with both children is appended under \<open>Downloads\<close> as well.
\<close>

lemma move_nested_result:
  "tree_handleDragEnd (tree_handleDragEnd initialData ''documents'' (Some ''projects''))
     ''documents'' (Some ''downloads'') =
     [TreeNode ''projects'' ''Projects''
        (Some [TreeNode ''documents'' ''Documents''
                 (Some [TreeNode ''personal'' ''Personal'' None (Some False) None (Some False)])
                 (Some True) None (Some True)])
        (Some True) None (Some False),
      TreeNode ''downloads'' ''Downloads''
        (Some [TreeNode ''documents'' ''Documents''
                 (Some [TreeNode ''work'' ''Work'' None (Some False) None (Some False),
                        TreeNode ''personal'' ''Personal'' None (Some False) None (Some False)])
                 (Some True) None (Some True)])
        (Some True) None (Some False)]"
  unfolding move_root_result
  by (simp add: tree_handleDragEnd_def findNode_def isArray_def or_empty_def
      with_children_def with_isExpanded_def Let_def filter_index_neq_eq isDescendant.simps)

lemma sample_drags_can_come_from_view:
  "can_drag initialData ''documents'' ''projects'' \<and>
   can_drag (tree_handleDragEnd initialData ''documents'' (Some ''projects''))
     ''documents'' ''downloads''"
  unfolding move_root_result
  by (simp add: can_drag_def initialData_def findNode_def isLeaf_def hasChildren_def
      isArray_def truthy_def)

text \<open>
  Claim C1 fails on the code. The operations of the board and all other operations
  of the tree keep the ids unique (\<open>kanban_operations_keep_unique\<close>,
  \<open>tree_operations_keep_unique\<close>), but the move of a nested node does not. The
  sample forest has unique ids; dragging \<open>Documents\<close> onto \<open>Projects\<close> is a drag the
  view can produce and keeps them unique; dragging \<open>Documents\<close>, now nested, onto
  \<open>Downloads\<close> is again a drag the view can produce, and after it the ids of
  \<open>Documents\<close> and \<open>Personal\<close> occur twice.
\<close>

theorem C1_nested_move_duplicates_id:
  "distinct (nodeIds initialData) \<and>
   can_drag initialData ''documents'' ''projects'' \<and>
   distinct (nodeIds (tree_handleDragEnd initialData ''documents'' (Some ''projects''))) \<and>
   can_drag (tree_handleDragEnd initialData ''documents'' (Some ''projects''))
     ''documents'' ''downloads'' \<and>
   nodeIds (tree_handleDragEnd
              (tree_handleDragEnd initialData ''documents'' (Some ''projects''))
              ''documents'' (Some ''downloads'')) =
     [''projects'', ''documents'', ''personal'', ''downloads'', ''documents'', ''work'',
      ''personal''] \<and>
   \<not> distinct (nodeIds (tree_handleDragEnd
                          (tree_handleDragEnd initialData ''documents'' (Some ''projects''))
                          ''documents'' (Some ''downloads'')))"
proof (intro conjI)
  show "distinct (nodeIds initialData)"
    by (simp add: initialData_def)
  show "can_drag initialData ''documents'' ''projects''"
    using sample_drags_can_come_from_view by (rule conjunct1)
  show "distinct (nodeIds (tree_handleDragEnd initialData ''documents'' (Some ''projects'')))"
    unfolding move_root_result by simp
  show "can_drag (tree_handleDragEnd initialData ''documents'' (Some ''projects''))
          ''documents'' ''downloads''"
    using sample_drags_can_come_from_view by (rule conjunct2)
  show "nodeIds (tree_handleDragEnd
              (tree_handleDragEnd initialData ''documents'' (Some ''projects''))
              ''documents'' (Some ''downloads'')) =
     [''projects'', ''documents'', ''personal'', ''downloads'', ''documents'', ''work'',
      ''personal'']"
    unfolding move_nested_result by simp
  show "\<not> distinct (nodeIds (tree_handleDragEnd
                          (tree_handleDragEnd initialData ''documents'' (Some ''projects''))
                          ''documents'' (Some ''downloads'')))"
    unfolding move_nested_result by simp
qed

text \<open>
  Claim C2 fails on the code at the same move. Deleting a card or a node and moving
  a card or a top-level node change the counts as the claim says
  (\<open>kanban_operations_count\<close>, \<open>tree_operations_count\<close>): the sample forest has
  five nodes, and five after \<open>Documents\<close> is dragged onto \<open>Projects\<close>. But after the
  nested \<open>Documents\<close> is then dragged onto \<open>Downloads\<close>, both drags being ones the
  view can produce, the forest has seven nodes.
\<close>

theorem C2_nested_move_adds_node:
  "length (nodeIds initialData) = 5 \<and>
   can_drag initialData ''documents'' ''projects'' \<and>
   length (nodeIds (tree_handleDragEnd initialData ''documents'' (Some ''projects''))) = 5 \<and>
   can_drag (tree_handleDragEnd initialData ''documents'' (Some ''projects''))
     ''documents'' ''downloads'' \<and>
   length (nodeIds (tree_handleDragEnd
                      (tree_handleDragEnd initialData ''documents'' (Some ''projects''))
                      ''documents'' (Some ''downloads''))) = 7"
proof (intro conjI)
  show "length (nodeIds initialData) = 5"
    by (simp add: initialData_def)
  show "can_drag initialData ''documents'' ''projects''"
    using sample_drags_can_come_from_view by (rule conjunct1)
  show "length (nodeIds (tree_handleDragEnd initialData ''documents'' (Some ''projects''))) = 5"
    unfolding move_root_result by simp
  show "can_drag (tree_handleDragEnd initialData ''documents'' (Some ''projects''))
          ''documents'' ''downloads''"
    using sample_drags_can_come_from_view by (rule conjunct2)
  show "length (nodeIds (tree_handleDragEnd
                      (tree_handleDragEnd initialData ''documents'' (Some ''projects''))
                      ''documents'' (Some ''downloads''))) = 7"
    unfolding move_nested_result by simp
qed

end
